theory Spec2Isabelle
  imports Main "HOL-Library.Sublist" "HOL-Library.Multiset"
begin

section \<open>VoteableContent: the mixin of Submissions and Comments\<close>

text \<open>
  The theory embeds \<^verbatim>\<open>src/objects/VoteableContent.js\<close>: the one-shot action
  \<^verbatim>\<open>distinguish\<close> with its alias \<^verbatim>\<open>undistinguish\<close>, and the reply-tree expansion
  \<^verbatim>\<open>expandReplies\<close> with its recursive helper \<^verbatim>\<open>_mutateAndExpandReplies\<close>.

  The methods are \<^verbatim>\<open>async\<close>. An async function runs synchronously up to its
  first \<^verbatim>\<open>await\<close>, hands a pending promise to its caller and is resumed when the awaited
  promise settles. The embedding keeps that: every async method of the expansion is split at
  its \<^verbatim>\<open>await\<close> into a part run by the call and a part run when the response arrives,
  and the suspended calls wait in a queue. Each part runs to its end before another one
  starts. Objects live in a store, since the expansion mutates them in place.
\<close>

subsection \<open>Numbers, errors, promises\<close>

text \<open>
  \<^verbatim>\<open>limit\<close> and \<open>depth\<close> are JavaScript numbers, that is IEEE 754 doubles, and default
  to \<^verbatim>\<open>Infinity\<close>. The model covers the doubles whose value is an integer, and
  \<^verbatim>\<open>Infinity\<close> (no fractions, no \<^verbatim>\<open>NaN\<close>, no \<^verbatim>\<open>-Infinity\<close>): \<open>Number n\<close> is the
  double of value \<open>n\<close>.
\<close>

datatype jsnum = Number int | Infinity

text \<open>\<^verbatim>\<open>x <= 0\<close>\<close>

fun js_le0 :: "jsnum \<Rightarrow> bool" where
  "js_le0 (Number n) = (n \<le> 0)"
| "js_le0 Infinity = False"

text \<open>
  A double has a significand of 53 bits: every integer up to \<open>2 ^ 53\<close> in absolute value
  is a double, beyond that only the multiples of a power of two are. \<open>excess m\<close> is the
  number of bits that \<open>m\<close> has beyond 53. \<open>round_double k\<close> is the double nearest to the
  integer \<open>k\<close>, the one with the even significand when two are equally near (the
  default rounding of IEEE 754).
\<close>

function excess :: "nat \<Rightarrow> nat" where
  "excess m = (if m < 2 ^ 53 then 0 else Suc (excess (m div 2)))"
  by pat_completeness auto
termination
  by (relation "measure (\<lambda>m. m)") auto

declare excess.simps [simp del]

definition round_double :: "int \<Rightarrow> int" where
  "round_double k =
     (let m = nat \<bar>k\<bar>; e = excess m; q = m div 2 ^ e; r = m mod 2 ^ e;
          up = (2 ^ e < 2 * r \<or> (2 * r = 2 ^ e \<and> odd q))
      in sgn k * int ((if up then q + 1 else q) * 2 ^ e))"

text \<open>
  \<^verbatim>\<open>x - n\<close> for a finite \<open>n\<close>: the exact difference, rounded to a double;
  \<^verbatim>\<open>Infinity - n\<close> is \<^verbatim>\<open>Infinity\<close>. (The operands here are a limit or depth and a
  length or 1, so the difference never leaves the range of the doubles.)
\<close>

fun js_minus :: "jsnum \<Rightarrow> int \<Rightarrow> jsnum" where
  "js_minus (Number x) n = Number (round_double (x - n))"
| "js_minus Infinity n = Infinity"

text \<open>
  \<^verbatim>\<open>xs.slice(0, end)\<close> of \<^verbatim>\<open>Array.prototype.slice\<close>: a negative \<open>end\<close> counts from the
  end of the array (and stops at \<open>0\<close>), an \<open>end\<close> beyond the length is the length.
\<close>

fun slice0 :: "jsnum \<Rightarrow> 'a list \<Rightarrow> 'a list" where
  "slice0 Infinity xs = xs"
| "slice0 (Number n) xs =
     (if n < 0 then take (nat (int (length xs) + n)) xs else take (nat n) xs)"

datatype error = TypeError | ServiceError string

datatype 'a settled = Pending | Fulfilled 'a | Rejected error

subsection \<open>The one-shot actions distinguish and undistinguish\<close>

text \<open>\<^verbatim>\<open>options.status\<close> is a boolean or a string.\<close>

datatype status = StatusBool bool | StatusString string

datatype formval = FormString string | FormBool bool

record request =
  url :: string
  form :: "(string \<times> formval) list"

definition api_type :: string where
  "api_type = ''json''"

text \<open>\<^verbatim>\<open>status === true ? 'yes' : status === false ? 'no' : status\<close>\<close>

fun how :: "status \<Rightarrow> formval" where
  "how (StatusBool True) = FormString ''yes''"
| "how (StatusBool False) = FormString ''no''"
| "how (StatusString s) = FormString s"

text \<open>
  \<^verbatim>\<open>this._post\<close> is not part of the file. It is a parameter: given the request and the
  state of the outside world \<open>'w\<close> it answers with an error or a response \<open>'r\<close> and the
  new state of the world.
\<close>

type_synonym ('w, 'r) post = "request \<Rightarrow> 'w \<Rightarrow> (error + 'r) \<times> 'w"

text \<open>
  The request of \<^verbatim>\<open>distinguish ({status = true, sticky = false} = {})\<close> on the entity
  named \<open>nm\<close>; an omitted option is \<open>None\<close>.
\<close>

definition distinguish_request :: "string \<Rightarrow> status option \<Rightarrow> bool option \<Rightarrow> request" where
  "distinguish_request nm status sticky =
     \<lparr>url = ''api/distinguish'',
      form = [(''api_type'', FormString api_type),
              (''how'', how (case status of None \<Rightarrow> StatusBool True | Some st \<Rightarrow> st)),
              (''sticky'', FormBool (case sticky of None \<Rightarrow> False | Some b \<Rightarrow> b)),
              (''id'', FormString nm)]\<rparr>"

text \<open>
  \<^verbatim>\<open>await this._post(...); return this\<close>: a failed request rejects, a served one
  fulfils with the receiver. The receiver is given by its \<^verbatim>\<open>name\<close> and the value
  \<open>this\<close> that stands for the object.
\<close>

definition distinguish ::
  "('w, 'r) post \<Rightarrow> string \<Rightarrow> 'a \<Rightarrow> status option \<Rightarrow> bool option \<Rightarrow> 'w \<Rightarrow> (error + 'a) \<times> 'w" where
  "distinguish post nm this status sticky w =
     (case post (distinguish_request nm status sticky) w of
        (Inl e, w') \<Rightarrow> (Inl e, w')
      | (Inr res, w') \<Rightarrow> (Inr this, w'))"

text \<open>\<^verbatim>\<open>return this.distinguish({status: false, sticky: false})\<close>\<close>

definition undistinguish :: "('w, 'r) post \<Rightarrow> string \<Rightarrow> 'a \<Rightarrow> 'w \<Rightarrow> (error + 'a) \<times> 'w" where
  "undistinguish post nm this w =
     distinguish post nm this (Some (StatusBool False)) (Some False) w"

subsection \<open>Entities, listings and the store\<close>

type_synonym addr = nat

text \<open>
  A Listing is an array of entities with the pagination state the Listing class keeps
  (\<open>cursor\<close>, opaque to this file).
\<close>

record 'c listing =
  items :: "addr list"
  cursor :: 'c

text \<open>
  An entity: \<open>cname\<close> is \<^verbatim>\<open>this.constructor._name\<close>, \<open>name\<close> is \<^verbatim>\<open>this.name\<close>,
  \<open>props\<close> maps a property name (\<^verbatim>\<open>comments\<close>, \<^verbatim>\<open>replies\<close>) to the Listing it holds.
\<close>

record 'c entity =
  cname :: string
  name :: string
  props :: "string \<rightharpoonup> 'c listing"

text \<open>
  The store: the object at address \<open>a\<close> is the \<open>a\<close>-th element; allocation appends.
  Objects are never freed.
\<close>

type_synonym 'c heap = "'c entity list"

definition lookup :: "'c heap \<Rightarrow> addr \<Rightarrow> 'c entity option" where
  "lookup h a = (if a < length h then Some (h ! a) else None)"

text \<open>\<^verbatim>\<open>this[key] = v\<close> on the object at \<open>a\<close>.\<close>

definition set_prop :: "addr \<Rightarrow> string \<Rightarrow> 'c listing \<Rightarrow> 'c heap \<Rightarrow> 'c heap" where
  "set_prop a key v h = h[a := (h ! a)\<lparr>props := (props (h ! a))(key \<mapsto> v)\<rparr>]"

subsection \<open>The collaborators\<close>

text \<open>
  \<^verbatim>\<open>fetch\<close>, \<^verbatim>\<open>_clone\<close> and \<^verbatim>\<open>Listing.fetchMore\<close> are not part of the file; they are
  parameters. \<open>fetch h this\<close> fails or returns the store after the refresh (the entity it
  resolves with is dropped by \<^verbatim>\<open>expandReplies\<close>). \<open>clone h this\<close> is
  \<^verbatim>\<open>this._clone({deep: true})\<close>: the address of the copy and the store that holds it.
  \<open>fetchMore h l amount\<close> is \<^verbatim>\<open>l.fetchMore({amount})\<close>: it fails, or returns the new
  Listing and the store that holds the entities it created.
\<close>

record 'c collab =
  fetch :: "'c heap \<Rightarrow> addr \<Rightarrow> error + 'c heap"
  clone :: "'c heap \<Rightarrow> addr \<Rightarrow> addr \<times> 'c heap"
  fetchMore :: "'c heap \<Rightarrow> 'c listing \<Rightarrow> jsnum \<Rightarrow> error + ('c listing \<times> 'c heap)"

subsection \<open>The state of one expansion\<close>

text \<open>
  One entry per call of \<^verbatim>\<open>_mutateAndExpandReplies\<close>, in call order: its receiver, its
  arguments, the call that issued it (\<open>None\<close> for the call made by
  \<^verbatim>\<open>expandReplies\<close>) and the state of the promise it returned. The position of the
  entry identifies the promise.
\<close>

record call =
  c_this :: addr
  c_limit :: jsnum
  c_depth :: jsnum
  c_parent :: "nat option"
  c_status :: "addr settled"

text \<open>
  A suspended call. \<open>AwaitFetch this limit depth\<close> is \<^verbatim>\<open>expandReplies\<close> at
  \<^verbatim>\<open>await this.fetch()\<close>. \<open>AwaitFetchMore p this key l amount limit depth\<close> is the call
  \<open>p\<close> of \<^verbatim>\<open>_mutateAndExpandReplies\<close> at \<^verbatim>\<open>await this[repliesKey].fetchMore(...)\<close>,
  where \<open>l\<close> is the Listing the request was made on and \<open>amount\<close> its argument.
\<close>

datatype 'c task =
    AwaitFetch addr jsnum jsnum
  | AwaitFetchMore nat addr string "'c listing" jsnum jsnum jsnum

text \<open>
  The promise of \<^verbatim>\<open>expandReplies\<close>: waiting for \<^verbatim>\<open>fetch\<close>, rejected by it, or
  resolved with the promise of a call of \<^verbatim>\<open>_mutateAndExpandReplies\<close>, whose state it
  takes.
\<close>

datatype outer = AwaitingFetch | Failed error | Adopted nat

text \<open>
  \<open>fetches\<close> is the trace of the \<^verbatim>\<open>fetchMore\<close> requests issued (receiver entity,
  property, amount); it only records, the code never reads it. The entries of \<open>calls\<close>
  are the promises: a call appends its entry, and the entry is written again only to
  settle the promise.
\<close>

record 'c state =
  heap :: "'c heap"
  calls :: "call list"
  fetches :: "(addr \<times> string \<times> jsnum) list"
  pending :: "'c task list"
  outer :: outer

definition set_status :: "nat \<Rightarrow> addr settled \<Rightarrow> 'c state \<Rightarrow> 'c state" where
  "set_status p v s = s\<lparr>calls := (calls s)[p := (calls s ! p)\<lparr>c_status := v\<rparr>]\<rparr>"

subsection \<open>The recursive step\<close>

text \<open>\<^verbatim>\<open>this.constructor._name === 'Submission' ? 'comments' : 'replies'\<close>\<close>

definition repliesKey :: "'c entity \<Rightarrow> string" where
  "repliesKey e = (if cname e = ''Submission'' then ''comments'' else ''replies'')"

text \<open>
  \<^verbatim>\<open>_mutateAndExpandReplies ({limit, depth})\<close> on \<open>this\<close>, called by \<open>par\<close>, up to its
  \<^verbatim>\<open>await\<close>. With \<^verbatim>\<open>depth <= 0\<close> it returns \<open>this\<close>: the promise is fulfilled. Otherwise
  it reads \<^verbatim>\<open>this[repliesKey]\<close>, issues \<^verbatim>\<open>fetchMore({amount: limit - length})\<close> and
  suspends. Reading a property of \<^verbatim>\<open>undefined\<close> throws, which rejects the promise; an
  address outside the store is given the same behaviour.
\<close>

definition mutateAndExpandReplies_call ::
  "nat option \<Rightarrow> addr \<Rightarrow> jsnum \<Rightarrow> jsnum \<Rightarrow> 'c state \<Rightarrow> 'c state" where
  "mutateAndExpandReplies_call par this limit depth s =
     (let p = length (calls s);
          entry = \<lparr>c_this = this, c_limit = limit, c_depth = depth, c_parent = par,
                   c_status = Pending\<rparr>
      in if js_le0 depth then s\<lparr>calls := calls s @ [entry\<lparr>c_status := Fulfilled this\<rparr>]\<rparr>
         else case lookup (heap s) this of
           None \<Rightarrow> s\<lparr>calls := calls s @ [entry\<lparr>c_status := Rejected TypeError\<rparr>]\<rparr>
         | Some e \<Rightarrow>
             (case props e (repliesKey e) of
                None \<Rightarrow> s\<lparr>calls := calls s @ [entry\<lparr>c_status := Rejected TypeError\<rparr>]\<rparr>
              | Some l \<Rightarrow>
                  (let amount = js_minus limit (int (length (items l)))
                   in s\<lparr>calls := calls s @ [entry],
                        fetches := fetches s @ [(this, repliesKey e, amount)],
                        pending := pending s @
                          [AwaitFetchMore p this (repliesKey e) l amount limit depth]\<rparr>)))"

text \<open>
  The rest of the call \<open>p\<close>, run when the response of \<^verbatim>\<open>fetchMore\<close> arrives: the
  request was made on the Listing \<open>l\<close> the node held at the call, the entities of the
  response are created in the store of the moment it arrives. A failed request rejects
  the promise. Otherwise \<^verbatim>\<open>this[repliesKey] = replies\<close>, then
  \<^verbatim>\<open>replies.slice(0, limit).map(reply => reply._mutateAndExpandReplies({limit, depth:
  depth - 1}))\<close> calls the step on each retained child in order; the array of promises
  that \<^verbatim>\<open>map\<close> returns is dropped, and \<^verbatim>\<open>return this\<close> fulfils the promise.
\<close>

definition mutateAndExpandReplies_resume ::
  "'c collab \<Rightarrow> nat \<Rightarrow> addr \<Rightarrow> string \<Rightarrow> 'c listing \<Rightarrow> jsnum \<Rightarrow> jsnum \<Rightarrow> jsnum \<Rightarrow>
     'c state \<Rightarrow> 'c state" where
  "mutateAndExpandReplies_resume C p this key l amount limit depth s =
     (case fetchMore C (heap s) l amount of
        Inl e \<Rightarrow> set_status p (Rejected e) s
      | Inr (replies, h') \<Rightarrow>
          set_status p (Fulfilled this)
            (fold (\<lambda>reply. mutateAndExpandReplies_call (Some p) reply limit (js_minus depth 1))
               (slice0 limit (items replies))
               (s\<lparr>heap := set_prop this key replies h'\<rparr>)))"

subsection \<open>expandReplies\<close>

text \<open>
  \<^verbatim>\<open>expandReplies ({limit = Infinity, depth = Infinity} = {})\<close> on \<open>this\<close> in the store
  \<open>h\<close>, up to \<^verbatim>\<open>await this.fetch()\<close>; an omitted option is \<open>None\<close>.
\<close>

definition expandReplies :: "'c heap \<Rightarrow> addr \<Rightarrow> jsnum option \<Rightarrow> jsnum option \<Rightarrow> 'c state" where
  "expandReplies h this limit depth =
     \<lparr>heap = h, calls = [], fetches = [],
      pending = [AwaitFetch this (case limit of None \<Rightarrow> Infinity | Some l \<Rightarrow> l)
                                 (case depth of None \<Rightarrow> Infinity | Some d \<Rightarrow> d)],
      outer = AwaitingFetch\<rparr>"

text \<open>
  The rest of \<^verbatim>\<open>expandReplies\<close>: a failed \<^verbatim>\<open>fetch\<close> rejects; otherwise
  \<^verbatim>\<open>return this._clone({deep: true})._mutateAndExpandReplies({limit, depth})\<close> resolves
  the promise with the promise of that call.
\<close>

definition expandReplies_resume :: "'c collab \<Rightarrow> addr \<Rightarrow> jsnum \<Rightarrow> jsnum \<Rightarrow> 'c state \<Rightarrow> 'c state" where
  "expandReplies_resume C this limit depth s =
     (case fetch C (heap s) this of
        Inl e \<Rightarrow> s\<lparr>outer := Failed e\<rparr>
      | Inr h1 \<Rightarrow>
          (case clone C h1 this of
             (copy, h2) \<Rightarrow>
               (mutateAndExpandReplies_call None copy limit depth (s\<lparr>heap := h2\<rparr>))
                 \<lparr>outer := Adopted (length (calls s))\<rparr>))"

text \<open>The state of the promise that \<^verbatim>\<open>expandReplies\<close> returned.\<close>

definition expandReplies_outcome :: "'c state \<Rightarrow> addr settled" where
  "expandReplies_outcome s =
     (case outer s of
        AwaitingFetch \<Rightarrow> Pending
      | Failed e \<Rightarrow> Rejected e
      | Adopted q \<Rightarrow> c_status (calls s ! q))"

subsection \<open>The event loop\<close>

fun resume :: "'c collab \<Rightarrow> 'c task \<Rightarrow> 'c state \<Rightarrow> 'c state" where
  "resume C (AwaitFetch this limit depth) s = expandReplies_resume C this limit depth s"
| "resume C (AwaitFetchMore p this key l amount limit depth) s =
     mutateAndExpandReplies_resume C p this key l amount limit depth s"

text \<open>
  Responses arrive in any order: \<open>settle C i s\<close> answers one of the requests in flight,
  chosen by \<open>i\<close>, and resumes the call that waits for it. With nothing in flight nothing
  happens.
\<close>

definition settle :: "'c collab \<Rightarrow> nat \<Rightarrow> 'c state \<Rightarrow> 'c state" where
  "settle C i s =
     (if pending s = [] then s
      else let j = i mod length (pending s)
           in resume C (pending s ! j)
                (s\<lparr>pending := take j (pending s) @ drop (Suc j) (pending s)\<rparr>))"

text \<open>\<open>run C sched s\<close>: the responses arrive in the order \<open>sched\<close> chooses.\<close>

fun run :: "'c collab \<Rightarrow> nat list \<Rightarrow> 'c state \<Rightarrow> 'c state" where
  "run C [] s = s"
| "run C (i # sched) s = run C sched (settle C i s)"

subsection \<open>The contracts of the collaborators\<close>

text \<open>
  What the theorems below assume of the collaborators, each only where it is needed.
  \<open>closed_from n h\<close>: the objects of \<open>h\<close> at the addresses from \<open>n\<close> on refer to
  such objects only.
\<close>

definition closed_from :: "nat \<Rightarrow> 'c heap \<Rightarrow> bool" where
  "closed_from n h =
     (\<forall>b key l a. n \<le> b \<and> b < length h \<and> props (h ! b) key = Some l \<and> a \<in> set (items l)
        \<longrightarrow> n \<le> a)"

text \<open>\<^verbatim>\<open>fetch\<close> leaves the objects that exist as they are.\<close>

definition fetch_keeps :: "'c collab \<Rightarrow> bool" where
  "fetch_keeps C = (\<forall>h this h'. fetch C h this = Inr h' \<longrightarrow> prefix h h')"

text \<open>
  The deep clone leaves the objects that exist as they are; the copy and everything it
  refers to are new objects.
\<close>

definition clone_deep :: "'c collab \<Rightarrow> bool" where
  "clone_deep C =
     (\<forall>h this copy h'. clone C h this = (copy, h') \<longrightarrow>
        prefix h h' \<and> length h \<le> copy \<and> closed_from (length h) h')"

text \<open>\<^verbatim>\<open>fetchMore\<close> leaves the objects that exist as they are.\<close>

definition fetchMore_keeps :: "'c collab \<Rightarrow> bool" where
  "fetchMore_keeps C =
     (\<forall>h l amount l' h'. fetchMore C h l amount = Inr (l', h') \<longrightarrow> prefix h h')"

text \<open>
  The Listing \<^verbatim>\<open>fetchMore\<close> returns contains the items of the Listing it was called on,
  in the same order.
\<close>

definition fetchMore_contains :: "'c collab \<Rightarrow> bool" where
  "fetchMore_contains C =
     (\<forall>h l amount l' h'. fetchMore C h l amount = Inr (l', h') \<longrightarrow>
        subseq (items l) (items l'))"

text \<open>The items \<^verbatim>\<open>fetchMore\<close> adds, and everything they refer to, are new objects.\<close>

definition fetchMore_fresh :: "'c collab \<Rightarrow> bool" where
  "fetchMore_fresh C =
     (\<forall>h l amount l' h'. fetchMore C h l amount = Inr (l', h') \<longrightarrow>
        (\<forall>a. a \<in> set (items l') \<longrightarrow> a \<in> set (items l) \<or> length h \<le> a) \<and>
        closed_from (length h) h')"

text \<open>
  \<^verbatim>\<open>fetchMore\<close> with an amount \<open>\<le> 0\<close> does nothing and returns a Listing with the
  same items.
\<close>

definition fetchMore_noop :: "'c collab \<Rightarrow> bool" where
  "fetchMore_noop C =
     (\<forall>h l k. k \<le> 0 \<longrightarrow> (\<exists>l'. fetchMore C h l (Number k) = Inr (l', h) \<and> items l' = items l))"

subsection \<open>Invariants of the event loop\<close>

text \<open>
  \<open>grown h h'\<close>: every object of \<open>h\<close> is in \<open>h'\<close> with its constructor and name, and
  each of its Listings contains the items it had in \<open>h\<close>, in the same order.
\<close>

definition grown :: "'c heap \<Rightarrow> 'c heap \<Rightarrow> bool" where
  "grown h h' =
     (length h \<le> length h' \<and>
      (\<forall>b. b < length h \<longrightarrow>
         cname (h' ! b) = cname (h ! b) \<and> name (h' ! b) = name (h ! b) \<and>
         (\<forall>key l0. props (h ! b) key = Some l0 \<longrightarrow>
            (\<exists>l. props (h' ! b) key = Some l \<and> subseq (items l0) (items l)))))"

text \<open>A suspended call whose receiver and whose Listing's items are at addresses from \<open>n\<close> on.\<close>

fun task_fresh :: "nat \<Rightarrow> 'c task \<Rightarrow> bool" where
  "task_fresh n (AwaitFetch this limit depth) = False"
| "task_fresh n (AwaitFetchMore p this key l amount limit depth) =
     (n \<le> this \<and> (\<forall>a. a \<in> set (items l) \<longrightarrow> n \<le> a))"

text \<open>
  A suspended call whose request was made on a Listing that contains the items its
  receiver had under that property in \<open>h\<close>, in the same order.
\<close>

fun task_keeps :: "'c heap \<Rightarrow> 'c task \<Rightarrow> bool" where
  "task_keeps h (AwaitFetch this limit depth) = False"
| "task_keeps h (AwaitFetchMore p this key l amount limit depth) =
     (\<forall>l0. this < length h \<and> props (h ! this) key = Some l0 \<longrightarrow> subseq (items l0) (items l))"

text \<open>
  A finite depth from which \<open>depth - 1\<close> is exact, and the depth a suspended call with
  such a depth still has to go.
\<close>

fun depth_exact :: "jsnum \<Rightarrow> bool" where
  "depth_exact (Number d) = (d \<le> 2 ^ 53)"
| "depth_exact Infinity = False"

fun task_finite :: "'c task \<Rightarrow> bool" where
  "task_finite (AwaitFetch this limit depth) = depth_exact depth"
| "task_finite (AwaitFetchMore p this key l amount limit depth) = depth_exact depth"

fun depth_nat :: "jsnum \<Rightarrow> nat" where
  "depth_nat (Number d) = nat d"
| "depth_nat Infinity = 0"

fun task_depth :: "'c task \<Rightarrow> nat" where
  "task_depth (AwaitFetch this limit depth) = Suc (depth_nat depth)"
| "task_depth (AwaitFetchMore p this key l amount limit depth) = depth_nat depth"

text \<open>
  \<open>linked s\<close>: every pending promise has its call suspended in the queue, and the promise
  of \<^verbatim>\<open>expandReplies\<close> waits for a call that is suspended or was made.
\<close>

fun waits_for :: "nat \<Rightarrow> 'c task \<Rightarrow> bool" where
  "waits_for q (AwaitFetch this limit depth) = False"
| "waits_for q (AwaitFetchMore p this key l amount limit depth) = (p = q)"

fun is_fetch :: "'c task \<Rightarrow> bool" where
  "is_fetch (AwaitFetch this limit depth) = True"
| "is_fetch (AwaitFetchMore p this key l amount limit depth) = False"

definition covered :: "'c state \<Rightarrow> nat \<Rightarrow> bool" where
  "covered s q =
     (q < length (calls s) \<and> c_status (calls s ! q) = Pending \<longrightarrow>
        (\<exists>t. t \<in> set (pending s) \<and> waits_for q t))"

definition linked :: "'c state \<Rightarrow> bool" where
  "linked s =
     ((outer s = AwaitingFetch \<longrightarrow> (\<exists>t. t \<in> set (pending s) \<and> is_fetch t)) \<and>
      (\<forall>q. outer s = Adopted q \<longrightarrow> q < length (calls s)) \<and>
      (\<forall>q. covered s q))"

subsection \<open>The loaded shape of a tree\<close>

text \<open>
  The tree of children below the object at \<open>a\<close>, down to \<open>n\<close> levels: how many
  children each node has.
\<close>

datatype outline = Shape "outline list" | Below

fun shape :: "nat \<Rightarrow> 'c heap \<Rightarrow> addr \<Rightarrow> outline" where
  "shape 0 h a = Below"
| "shape (Suc n) h a =
     (case lookup h a of
        None \<Rightarrow> Below
      | Some e \<Rightarrow>
          (case props e (repliesKey e) of
             None \<Rightarrow> Shape []
           | Some l \<Rightarrow> Shape (map (shape n h) (items l))))"

subsection \<open>A thread and test doubles of the collaborators\<close>

definition comment :: "string \<Rightarrow> addr list \<Rightarrow> 'c \<Rightarrow> 'c entity" where
  "comment nm rs c =
     \<lparr>cname = ''Comment'', name = nm, props = [''replies'' \<mapsto> \<lparr>items = rs, cursor = c\<rparr>]\<rparr>"

definition submission :: "string \<Rightarrow> addr list \<Rightarrow> 'c \<Rightarrow> 'c entity" where
  "submission nm cs c =
     \<lparr>cname = ''Submission'', name = nm, props = [''comments'' \<mapsto> \<lparr>items = cs, cursor = c\<rparr>]\<rparr>"

text \<open>
  A deep clone that copies every object of the store: the copy of the object at \<open>a\<close> is
  at \<open>a + length h\<close>, and every reference held by a copy points to a copy.
\<close>

definition shift :: "nat \<Rightarrow> 'c entity \<Rightarrow> 'c entity" where
  "shift k e =
     e\<lparr>props := (\<lambda>key. map_option (\<lambda>l. l\<lparr>items := map (\<lambda>a. a + k) (items l)\<rparr>) (props e key))\<rparr>"

definition clone_whole :: "'c heap \<Rightarrow> addr \<Rightarrow> addr \<times> 'c heap" where
  "clone_whole h this = (this + length h, h @ map (shift (length h)) h)"

text \<open>
  A service whose Listings know what the next request does: \<open>Inl e\<close> fails with \<open>e\<close>,
  \<open>Inr k\<close> has \<open>k\<close> more comments, each without replies. A request for \<open>amount\<close>
  appends \<open>min k amount\<close> new comments; with \<open>amount \<le> 0\<close> no request is made and the
  Listing comes back as it is.
\<close>

definition served ::
  "(error + nat) heap \<Rightarrow> (error + nat) listing \<Rightarrow> jsnum \<Rightarrow>
     error + ((error + nat) listing \<times> (error + nat) heap)" where
  "served h l amount =
     (if js_le0 amount then Inr (l, h)
      else case cursor l of
        Inl e \<Rightarrow> Inl e
      | Inr k \<Rightarrow>
          (let m = (case amount of Infinity \<Rightarrow> k | Number n \<Rightarrow> min k (nat n))
           in Inr (\<lparr>items = items l @ [length h ..< length h + m], cursor = Inr (k - m)\<rparr>,
                   h @ replicate m (comment ''t1_new'' [] (Inr 0)))))"

definition double :: "(error + nat) collab" where
  "double = \<lparr>fetch = (\<lambda>h this. Inr h), clone = clone_whole, fetchMore = served\<rparr>"

text \<open>
  A submission with one comment that has one reply; the service has one more
  top-level comment, and fails when asked for more replies to the first comment.
\<close>

definition thread :: "(error + nat) heap" where
  "thread =
     [submission ''t3_a'' [1] (Inr 1),
      comment ''t1_b'' [2] (Inl (ServiceError ''503'')),
      comment ''t1_c'' [] (Inr 0)]"

text \<open>
  The states of \<^verbatim>\<open>expandReplies({limit: 5, depth: 3})\<close> on the submission of \<open>thread\<close>:
  after the response of \<^verbatim>\<open>fetch\<close> (the clone is made and the request on its comments
  is in flight), after the response to that request, and after the failed response to the
  request on the replies of the first comment.
\<close>

definition thread_cloned :: "(error + nat) state" where
  "thread_cloned =
     \<lparr>heap = [submission ''t3_a'' [1] (Inr 1),
              comment ''t1_b'' [2] (Inl (ServiceError ''503'')),
              comment ''t1_c'' [] (Inr 0),
              submission ''t3_a'' [4] (Inr 1),
              comment ''t1_b'' [5] (Inl (ServiceError ''503'')),
              comment ''t1_c'' [] (Inr 0)],
      calls = [\<lparr>c_this = 3, c_limit = Number 5, c_depth = Number 3, c_parent = None,
                c_status = Pending\<rparr>],
      fetches = [(3, ''comments'', Number 4)],
      pending = [AwaitFetchMore 0 3 ''comments'' \<lparr>items = [4], cursor = Inr 1\<rparr>
                   (Number 4) (Number 5) (Number 3)],
      outer = Adopted 0\<rparr>"

definition thread_root_served :: "(error + nat) state" where
  "thread_root_served =
     \<lparr>heap = [submission ''t3_a'' [1] (Inr 1),
              comment ''t1_b'' [2] (Inl (ServiceError ''503'')),
              comment ''t1_c'' [] (Inr 0),
              submission ''t3_a'' [4, 6] (Inr 0),
              comment ''t1_b'' [5] (Inl (ServiceError ''503'')),
              comment ''t1_c'' [] (Inr 0),
              comment ''t1_new'' [] (Inr 0)],
      calls = [\<lparr>c_this = 3, c_limit = Number 5, c_depth = Number 3, c_parent = None,
                c_status = Fulfilled 3\<rparr>,
               \<lparr>c_this = 4, c_limit = Number 5, c_depth = Number 2, c_parent = Some 0,
                c_status = Pending\<rparr>,
               \<lparr>c_this = 6, c_limit = Number 5, c_depth = Number 2, c_parent = Some 0,
                c_status = Pending\<rparr>],
      fetches = [(3, ''comments'', Number 4), (4, ''replies'', Number 4),
                 (6, ''replies'', Number 5)],
      pending = [AwaitFetchMore 1 4 ''replies'' \<lparr>items = [5], cursor = Inl (ServiceError ''503'')\<rparr>
                   (Number 4) (Number 5) (Number 2),
                 AwaitFetchMore 2 6 ''replies'' \<lparr>items = [], cursor = Inr 0\<rparr>
                   (Number 5) (Number 5) (Number 2)],
      outer = Adopted 0\<rparr>"

definition thread_child_failed :: "(error + nat) state" where
  "thread_child_failed =
     \<lparr>heap = [submission ''t3_a'' [1] (Inr 1),
              comment ''t1_b'' [2] (Inl (ServiceError ''503'')),
              comment ''t1_c'' [] (Inr 0),
              submission ''t3_a'' [4, 6] (Inr 0),
              comment ''t1_b'' [5] (Inl (ServiceError ''503'')),
              comment ''t1_c'' [] (Inr 0),
              comment ''t1_new'' [] (Inr 0)],
      calls = [\<lparr>c_this = 3, c_limit = Number 5, c_depth = Number 3, c_parent = None,
                c_status = Fulfilled 3\<rparr>,
               \<lparr>c_this = 4, c_limit = Number 5, c_depth = Number 2, c_parent = Some 0,
                c_status = Rejected (ServiceError ''503'')\<rparr>,
               \<lparr>c_this = 6, c_limit = Number 5, c_depth = Number 2, c_parent = Some 0,
                c_status = Pending\<rparr>],
      fetches = [(3, ''comments'', Number 4), (4, ''replies'', Number 4),
                 (6, ''replies'', Number 5)],
      pending = [AwaitFetchMore 2 6 ''replies'' \<lparr>items = [], cursor = Inr 0\<rparr>
                   (Number 5) (Number 5) (Number 2)],
      outer = Adopted 0\<rparr>"

text \<open>
  A service that always has one more comment, without replies of its own at first, and a
  store with one comment without replies. \<open>stuck s\<close>: the only suspended call of
  \<open>s\<close> is a step with limit 1 and depth \<open>2 ^ 53 + 4\<close> on a comment without replies.
\<close>

definition endless :: "unit collab" where
  "endless =
     \<lparr>fetch = (\<lambda>h this. Inr h), clone = clone_whole,
      fetchMore = (\<lambda>h l amount.
        if js_le0 amount then Inr (l, h)
        else Inr (\<lparr>items = items l @ [length h], cursor = ()\<rparr>,
                  h @ [comment ''t1_new'' [] ()]))\<rparr>"

definition lone_comment :: "unit heap" where
  "lone_comment = [comment ''t1_a'' [] ()]"

definition stuck :: "unit state \<Rightarrow> bool" where
  "stuck s =
     (\<exists>p this. this < length (heap s) \<and>
        pending s = [AwaitFetchMore p this ''replies'' \<lparr>items = [], cursor = ()\<rparr>
                       (Number 1) (Number 1) (Number 9007199254740996)])"

text \<open>
  A comment with two replies, in a state where its call with \<^verbatim>\<open>limit\<close> 1 and
  \<^verbatim>\<open>depth\<close> 2 has been resumed from the queue.
\<close>

definition two_replies :: "(error + nat) state" where
  "two_replies =
     \<lparr>heap = [comment ''t1_a'' [1, 2] (Inr 0),
              comment ''t1_b'' [] (Inr 0),
              comment ''t1_c'' [] (Inr 0)],
      calls = [\<lparr>c_this = 0, c_limit = Number 1, c_depth = Number 2, c_parent = None,
                c_status = Pending\<rparr>],
      fetches = [(0, ''replies'', Number (- 1))],
      pending = [],
      outer = Adopted 0\<rparr>"

section \<open>Properties\<close>

subsection \<open>Subtraction of doubles\<close>

lemma excess_small: "m < 2 ^ 53 \<Longrightarrow> excess m = 0"
  by (subst excess.simps) simp

lemma round_double_exact: "\<bar>k\<bar> < 2 ^ 53 \<Longrightarrow> round_double k = k"
proof -
  assume "\<bar>k\<bar> < 2 ^ 53"
  then have "nat \<bar>k\<bar> < 2 ^ 53" by (simp add: nat_less_iff)
  then have "excess (nat \<bar>k\<bar>) = 0" by (rule excess_small)
  then show ?thesis by (simp add: round_double_def Let_def mult_sgn_abs)
qed

lemma round_double_nonpos: "k \<le> 0 \<Longrightarrow> round_double k \<le> 0"
  by (cases "k = 0") (simp_all add: round_double_def Let_def sgn_if)

lemma js_minus_exact: "\<bar>x - n\<bar> < 2 ^ 53 \<Longrightarrow> js_minus (Number x) n = Number (x - n)"
  by (simp add: round_double_exact)

text \<open>From \<open>2 ^ 53 + 4\<close> the difference \<open>x - 1\<close> is not a double and rounds back to \<open>x\<close>.\<close>

lemma excess_one: "excess 9007199254740995 = 1"
proof -
  have "excess 9007199254740995 = Suc (excess (9007199254740995 div 2))"
    by (subst excess.simps) simp
  also have "(9007199254740995 :: nat) div 2 = 4503599627370497" by simp
  also have "excess 4503599627370497 = 0" by (rule excess_small) simp
  finally show ?thesis by simp
qed

lemma js_minus_stuck: "js_minus (Number 9007199254740996) 1 = Number 9007199254740996"
proof -
  have "nat \<bar>9007199254740996 - 1 :: int\<bar> = 9007199254740995" by simp
  then show ?thesis by (simp add: round_double_def Let_def excess_one)
qed

subsection \<open>What a call of the step does to the state\<close>

lemma call_heap: "heap (mutateAndExpandReplies_call par this lim dep s) = heap s"
  by (simp add: mutateAndExpandReplies_call_def Let_def split: option.splits)

lemma call_outer: "outer (mutateAndExpandReplies_call par this lim dep s) = outer s"
  by (simp add: mutateAndExpandReplies_call_def Let_def split: option.splits)

lemma call_pending:
  "pending (mutateAndExpandReplies_call par this lim dep s) =
     pending s @
       (if js_le0 dep then []
        else case lookup (heap s) this of
          None \<Rightarrow> []
        | Some e \<Rightarrow>
            (case props e (repliesKey e) of
               None \<Rightarrow> []
             | Some l \<Rightarrow>
                 [AwaitFetchMore (length (calls s)) this (repliesKey e) l
                    (js_minus lim (int (length (items l)))) lim dep]))"
  by (simp add: mutateAndExpandReplies_call_def Let_def split: option.splits)

lemma call_fetches:
  "fetches (mutateAndExpandReplies_call par this lim dep s) =
     fetches s @
       (if js_le0 dep then []
        else case lookup (heap s) this of
          None \<Rightarrow> []
        | Some e \<Rightarrow>
            (case props e (repliesKey e) of
               None \<Rightarrow> []
             | Some l \<Rightarrow> [(this, repliesKey e, js_minus lim (int (length (items l))))]))"
  by (simp add: mutateAndExpandReplies_call_def Let_def split: option.splits)

lemma call_calls:
  "calls (mutateAndExpandReplies_call par this lim dep s) =
     calls s @
       [\<lparr>c_this = this, c_limit = lim, c_depth = dep, c_parent = par,
         c_status =
           (if js_le0 dep then Fulfilled this
            else case lookup (heap s) this of
              None \<Rightarrow> Rejected TypeError
            | Some e \<Rightarrow>
                (case props e (repliesKey e) of
                   None \<Rightarrow> Rejected TypeError
                 | Some l \<Rightarrow> Pending))\<rparr>]"
  by (simp add: mutateAndExpandReplies_call_def Let_def split: option.splits)

text \<open>The suspended call that a call on \<open>this\<close> may leave behind.\<close>

lemma call_pending_cases [case_names settled suspended]:
  assumes "pending (mutateAndExpandReplies_call par this lim dep s) = pending s \<Longrightarrow> thesis"
    and "\<And>e l. \<not> js_le0 dep \<Longrightarrow> lookup (heap s) this = Some e \<Longrightarrow>
      props e (repliesKey e) = Some l \<Longrightarrow>
      pending (mutateAndExpandReplies_call par this lim dep s) =
         pending s @ [AwaitFetchMore (length (calls s)) this (repliesKey e) l
                        (js_minus lim (int (length (items l)))) lim dep] \<Longrightarrow> thesis"
  shows thesis
proof (cases "js_le0 dep")
  case True
  then show ?thesis using assms(1) by (simp add: call_pending)
next
  case False
  show ?thesis
  proof (cases "lookup (heap s) this")
    case None
    with False show ?thesis using assms(1) by (simp add: call_pending)
  next
    case (Some e)
    show ?thesis
    proof (cases "props e (repliesKey e)")
      case None
      with False Some show ?thesis using assms(1) by (simp add: call_pending)
    next
      case (Some l)
      with False \<open>lookup (heap s) this = Some e\<close> show ?thesis
        using assms(2)[of e l] by (simp add: call_pending)
    qed
  qed
qed

subsection \<open>The calls on the retained children\<close>

lemma fold_call_heap:
  "heap (fold (\<lambda>r. mutateAndExpandReplies_call par r lim dep) rs s) = heap s"
  by (induction rs arbitrary: s) (simp_all add: call_heap)

lemma fold_call_outer:
  "outer (fold (\<lambda>r. mutateAndExpandReplies_call par r lim dep) rs s) = outer s"
  by (induction rs arbitrary: s) (simp_all add: call_outer)

lemma fold_call_calls:
  "map (\<lambda>c. (c_this c, c_limit c, c_depth c, c_parent c))
     (calls (fold (\<lambda>r. mutateAndExpandReplies_call par r lim dep) rs s)) =
   map (\<lambda>c. (c_this c, c_limit c, c_depth c, c_parent c)) (calls s) @
   map (\<lambda>r. (r, lim, dep, par)) rs"
  by (induction rs arbitrary: s) (simp_all add: call_calls)

lemma fold_call_calls_prefix:
  "prefix (calls s) (calls (fold (\<lambda>r. mutateAndExpandReplies_call par r lim dep) rs s))"
proof (induction rs arbitrary: s)
  case Nil
  show ?case by simp
next
  case (Cons r rs)
  have "prefix (calls s) (calls (mutateAndExpandReplies_call par r lim dep s))"
    by (simp add: call_calls)
  with Cons[of "mutateAndExpandReplies_call par r lim dep s"] show ?case
    by (auto intro: prefix_order.trans)
qed

text \<open>
  Every suspended call they leave behind is a call on one of them, made on the Listing
  it holds in the store.
\<close>

lemma fold_call_pending:
  "\<exists>ts. pending (fold (\<lambda>r. mutateAndExpandReplies_call par r lim dep) rs s) = pending s @ ts \<and>
        (\<forall>t. t \<in> set ts \<longrightarrow>
           (\<exists>p this e l. this \<in> set rs \<and> \<not> js_le0 dep \<and> lookup (heap s) this = Some e \<and>
              props e (repliesKey e) = Some l \<and>
              t = AwaitFetchMore p this (repliesKey e) l
                    (js_minus lim (int (length (items l)))) lim dep))"
proof (induction rs arbitrary: s)
  case Nil
  show ?case by simp
next
  case (Cons r rs)
  let ?s1 = "mutateAndExpandReplies_call par r lim dep s"
  from Cons[of ?s1] obtain ts where
    ts: "pending (fold (\<lambda>r. mutateAndExpandReplies_call par r lim dep) rs ?s1) = pending ?s1 @ ts"
    and each: "\<forall>t. t \<in> set ts \<longrightarrow>
           (\<exists>p this e l. this \<in> set rs \<and> \<not> js_le0 dep \<and> lookup (heap ?s1) this = Some e \<and>
              props e (repliesKey e) = Some l \<and>
              t = AwaitFetchMore p this (repliesKey e) l
                    (js_minus lim (int (length (items l)))) lim dep)"
    by blast
  show ?case
  proof (cases rule: call_pending_cases[of par r lim dep s])
    case settled
    with ts each show ?thesis
      by (simp add: call_heap) (metis (no_types, lifting))
  next
    case (suspended e l)
    let ?t = "AwaitFetchMore (length (calls s)) r (repliesKey e) l
                (js_minus lim (int (length (items l)))) lim dep"
    have "pending (fold (\<lambda>r. mutateAndExpandReplies_call par r lim dep) (r # rs) s) =
            pending s @ (?t # ts)"
      using ts suspended(4) by simp
    moreover have "\<forall>t. t \<in> set (?t # ts) \<longrightarrow>
           (\<exists>p this e l. this \<in> set (r # rs) \<and> \<not> js_le0 dep \<and> lookup (heap s) this = Some e \<and>
              props e (repliesKey e) = Some l \<and>
              t = AwaitFetchMore p this (repliesKey e) l
                    (js_minus lim (int (length (items l)))) lim dep)"
      using each suspended(1,2,3) by (simp add: call_heap) (metis (no_types, lifting))
    ultimately show ?thesis by blast
  qed
qed

subsection \<open>What the arrival of a response does to the state\<close>

lemma set_status_fields:
  "heap (set_status p v s) = heap s"
  "pending (set_status p v s) = pending s"
  "fetches (set_status p v s) = fetches s"
  "outer (set_status p v s) = outer s"
  "calls (set_status p v s) = (calls s)[p := (calls s ! p)\<lparr>c_status := v\<rparr>]"
  by (simp_all add: set_status_def)

lemma resume_failed:
  assumes "fetchMore C (heap s) l amount = Inl e"
  shows "mutateAndExpandReplies_resume C p this key l amount limit depth s =
           set_status p (Rejected e) s"
  using assms by (simp add: mutateAndExpandReplies_resume_def)

lemma resume_served:
  assumes "fetchMore C (heap s) l amount = Inr (replies, h')"
  shows "mutateAndExpandReplies_resume C p this key l amount limit depth s =
           set_status p (Fulfilled this)
             (fold (\<lambda>reply. mutateAndExpandReplies_call (Some p) reply limit (js_minus depth 1))
                (slice0 limit (items replies))
                (s\<lparr>heap := set_prop this key replies h'\<rparr>))"
  using assms by (simp add: mutateAndExpandReplies_resume_def)

lemma resume_served_heap:
  assumes "fetchMore C (heap s) l amount = Inr (replies, h')"
  shows "heap (mutateAndExpandReplies_resume C p this key l amount limit depth s) =
           set_prop this key replies h'"
  by (simp add: resume_served[OF assms] set_status_fields fold_call_heap)

lemma resume_served_pending:
  assumes "fetchMore C (heap s) l amount = Inr (replies, h')"
  shows "\<exists>ts. pending (mutateAndExpandReplies_resume C p this key l amount limit depth s) =
                pending s @ ts \<and>
        (\<forall>t. t \<in> set ts \<longrightarrow>
           (\<exists>q r e l'. r \<in> set (slice0 limit (items replies)) \<and> \<not> js_le0 (js_minus depth 1) \<and>
              lookup (set_prop this key replies h') r = Some e \<and>
              props e (repliesKey e) = Some l' \<and>
              t = AwaitFetchMore q r (repliesKey e) l'
                    (js_minus limit (int (length (items l')))) limit (js_minus depth 1)))"
  using fold_call_pending[of "Some p" limit "js_minus depth 1" "slice0 limit (items replies)"
      "s\<lparr>heap := set_prop this key replies h'\<rparr>"]
  by (simp add: resume_served[OF assms] set_status_fields)

lemma set_slice0: "set (slice0 limit xs) \<subseteq> set xs"
  by (cases limit) (auto dest: in_set_takeD)

subsection \<open>One response, any response\<close>

lemma settle_idle: "pending s = [] \<Longrightarrow> settle C i s = s"
  by (simp add: settle_def)

lemma settle_step:
  assumes "pending s \<noteq> []"
  shows "\<exists>t rest. mset (pending s) = add_mset t (mset rest) \<and>
           settle C i s = resume C t (s\<lparr>pending := rest\<rparr>)"
proof -
  let ?j = "i mod length (pending s)"
  have j: "?j < length (pending s)" using assms by simp
  have "pending s = take ?j (pending s) @ pending s ! ?j # drop (Suc ?j) (pending s)"
    using j by (simp add: id_take_nth_drop)
  then have "mset (pending s) =
      add_mset (pending s ! ?j) (mset (take ?j (pending s) @ drop (Suc ?j) (pending s)))"
    by (metis mset.simps(2) mset_append union_mset_add_mset_right)
  moreover have "settle C i s =
      resume C (pending s ! ?j) (s\<lparr>pending := take ?j (pending s) @ drop (Suc ?j) (pending s)\<rparr>)"
    using assms by (simp add: settle_def Let_def)
  ultimately show ?thesis by blast
qed

text \<open>
  An invariant made of a property \<open>G\<close> of the store and a property \<open>T\<close> of every
  suspended call holds after a response, if resuming a call with \<open>T\<close> keeps it.
\<close>

lemma settle_invariant:
  assumes "G (heap s)" and "\<forall>t. t \<in> set (pending s) \<longrightarrow> T t"
    and step: "\<And>t s'. T t \<Longrightarrow> G (heap s') \<Longrightarrow> (\<forall>t'. t' \<in> set (pending s') \<longrightarrow> T t') \<Longrightarrow>
       G (heap (resume C t s')) \<and> (\<forall>t'. t' \<in> set (pending (resume C t s')) \<longrightarrow> T t')"
  shows "G (heap (settle C i s)) \<and> (\<forall>t. t \<in> set (pending (settle C i s)) \<longrightarrow> T t)"
proof (cases "pending s = []")
  case True
  with assms(1,2) show ?thesis by (simp add: settle_idle)
next
  case False
  from settle_step[OF False, of C i] obtain t rest where
    m: "mset (pending s) = add_mset t (mset rest)" and
    st: "settle C i s = resume C t (s\<lparr>pending := rest\<rparr>)" by blast
  have "set (pending s) = insert t (set rest)"
    using m by (metis set_mset_add_mset_insert set_mset_mset)
  with assms(2) have "T t" and "\<forall>t'. t' \<in> set rest \<longrightarrow> T t'" by auto
  with step[of t "s\<lparr>pending := rest\<rparr>"] assms(1) show ?thesis
    by (simp add: st)
qed

lemma run_invariant:
  assumes "G (heap s)" and "\<forall>t. t \<in> set (pending s) \<longrightarrow> T t"
    and step: "\<And>t s'. T t \<Longrightarrow> G (heap s') \<Longrightarrow> (\<forall>t'. t' \<in> set (pending s') \<longrightarrow> T t') \<Longrightarrow>
       G (heap (resume C t s')) \<and> (\<forall>t'. t' \<in> set (pending (resume C t s')) \<longrightarrow> T t')"
  shows "G (heap (run C sched s)) \<and> (\<forall>t. t \<in> set (pending (run C sched s)) \<longrightarrow> T t)"
  using assms(1,2)
proof (induction sched arbitrary: s)
  case Nil
  then show ?case by simp
next
  case (Cons i sched)
  have "G (heap (settle C i s)) \<and> (\<forall>t. t \<in> set (pending (settle C i s)) \<longrightarrow> T t)"
    using Cons.prems step by (rule settle_invariant)
  then show ?case using Cons.IH[of "settle C i s"] by simp
qed

subsection \<open>The store\<close>

lemma prefix_update_beyond:
  assumes "prefix xs ys" and "length xs \<le> i"
  shows "prefix xs (ys[i := v])"
proof -
  from assms(1) obtain zs where "ys = xs @ zs" by (auto simp: prefix_def)
  with assms(2) show ?thesis by (simp add: list_update_append)
qed

lemma prefix_nth: "prefix xs ys \<Longrightarrow> b < length xs \<Longrightarrow> ys ! b = xs ! b"
  by (auto simp: prefix_def nth_append)

lemma length_set_prop: "length (set_prop a key v h) = length h"
  by (simp add: set_prop_def)

lemma nth_set_prop_other: "b \<noteq> a \<Longrightarrow> set_prop a key v h ! b = h ! b"
  by (simp add: set_prop_def)

lemma nth_set_prop_same:
  "a < length h \<Longrightarrow> set_prop a key v h ! a = (h ! a)\<lparr>props := (props (h ! a))(key \<mapsto> v)\<rparr>"
  by (simp add: set_prop_def)

lemma prefix_set_prop_beyond: "prefix h0 h \<Longrightarrow> length h0 \<le> a \<Longrightarrow> prefix h0 (set_prop a key v h)"
  by (simp add: set_prop_def prefix_update_beyond)

lemma lookup_Some: "lookup h a = Some e \<longleftrightarrow> a < length h \<and> e = h ! a"
  by (auto simp: lookup_def)

lemma closed_fromD:
  "closed_from n h \<Longrightarrow> n \<le> b \<Longrightarrow> b < length h \<Longrightarrow> props (h ! b) key = Some l \<Longrightarrow>
     a \<in> set (items l) \<Longrightarrow> n \<le> a"
  unfolding closed_from_def by blast

lemma closed_from_extend:
  assumes "closed_from n h" and "prefix h h'" and "closed_from (length h) h'" and "n \<le> length h"
  shows "closed_from n h'"
  unfolding closed_from_def
proof (intro allI impI)
  fix b key l a
  assume A: "n \<le> b \<and> b < length h' \<and> props (h' ! b) key = Some l \<and> a \<in> set (items l)"
  show "n \<le> a"
  proof (cases "b < length h")
    case True
    then have "h' ! b = h ! b" using assms(2) by (rule prefix_nth[rotated])
    with A True show ?thesis using closed_fromD[OF assms(1), of b key l a] by simp
  next
    case False
    with A have "length h \<le> a" using closed_fromD[OF assms(3), of b key l a] by simp
    with assms(4) show ?thesis by simp
  qed
qed

lemma closed_from_set_prop:
  assumes "closed_from n h" and "\<forall>a. a \<in> set (items v) \<longrightarrow> n \<le> a"
  shows "closed_from n (set_prop this key v h)"
  unfolding closed_from_def
proof (intro allI impI)
  fix b k l a
  assume A: "n \<le> b \<and> b < length (set_prop this key v h) \<and>
     props (set_prop this key v h ! b) k = Some l \<and> a \<in> set (items l)"
  then have b: "b < length h" by (simp add: length_set_prop)
  show "n \<le> a"
  proof (cases "b = this \<and> k = key")
    case True
    with A b have "l = v" by (simp add: nth_set_prop_same)
    with A assms(2) show ?thesis by simp
  next
    case False
    then have "props (set_prop this key v h ! b) k = props (h ! b) k"
      using b by (cases "b = this") (simp_all add: nth_set_prop_same nth_set_prop_other)
    with A b show ?thesis using closed_fromD[OF assms(1), of b k l a] by simp
  qed
qed

subsection \<open>The expansion writes to new objects only\<close>

lemma frame_resume:
  assumes ext: "fetchMore_keeps C" and fr: "fetchMore_fresh C"
    and T: "task_fresh (length h1) t"
    and G: "prefix h1 (heap s) \<and> closed_from (length h1) (heap s)"
    and Ts: "\<forall>t'. t' \<in> set (pending s) \<longrightarrow> task_fresh (length h1) t'"
  shows "(prefix h1 (heap (resume C t s)) \<and> closed_from (length h1) (heap (resume C t s))) \<and>
         (\<forall>t'. t' \<in> set (pending (resume C t s)) \<longrightarrow> task_fresh (length h1) t')"
proof (cases t)
  case (AwaitFetch this limit depth)
  with T show ?thesis by simp
next
  case (AwaitFetchMore p this key l amount limit depth)
  with T have recv: "length h1 \<le> this" and l: "\<forall>a. a \<in> set (items l) \<longrightarrow> length h1 \<le> a"
    by simp_all
  show ?thesis
  proof (cases "fetchMore C (heap s) l amount")
    case (Inl e)
    with G Ts show ?thesis
      by (simp add: AwaitFetchMore resume_failed set_status_fields)
  next
    case (Inr r)
    obtain replies h' where r: "r = (replies, h')" by (cases r)
    have fm: "fetchMore C (heap s) l amount = Inr (replies, h')" using Inr r by simp
    from ext fm have pre: "prefix (heap s) h'" unfolding fetchMore_keeps_def by blast
    from fr fm have new: "\<forall>a. a \<in> set (items replies) \<longrightarrow> a \<in> set (items l) \<or> length (heap s) \<le> a"
      and cl: "closed_from (length (heap s)) h'" unfolding fetchMore_fresh_def by blast+
    have len: "length h1 \<le> length (heap s)" using G by (simp add: prefix_length_le)
    let ?h = "set_prop this key replies h'"
    have "prefix h1 h'" using G pre by (blast intro: prefix_order.trans)
    then have p1: "prefix h1 ?h" using recv by (rule prefix_set_prop_beyond)
    have c0: "closed_from (length h1) h'"
      using conjunct2[OF G] pre cl len by (rule closed_from_extend)
    have items: "\<forall>a. a \<in> set (items replies) \<longrightarrow> length h1 \<le> a"
    proof (intro allI impI)
      fix a assume "a \<in> set (items replies)"
      with new have "a \<in> set (items l) \<or> length (heap s) \<le> a" by simp
      with l len show "length h1 \<le> a" by auto
    qed
    have c1: "closed_from (length h1) ?h" using c0 items by (rule closed_from_set_prop)
    have heap: "heap (resume C t s) = ?h"
      by (simp add: AwaitFetchMore resume_served_heap[OF fm])
    from resume_served_pending[OF fm, of p this key limit depth] obtain ts where
      ts: "pending (resume C t s) = pending s @ ts" and
      each: "\<forall>t. t \<in> set ts \<longrightarrow>
           (\<exists>q r e l'. r \<in> set (slice0 limit (items replies)) \<and> \<not> js_le0 (js_minus depth 1) \<and>
              lookup ?h r = Some e \<and> props e (repliesKey e) = Some l' \<and>
              t = AwaitFetchMore q r (repliesKey e) l'
                    (js_minus limit (int (length (items l')))) limit (js_minus depth 1))"
      by (auto simp: AwaitFetchMore)
    have "task_fresh (length h1) t'" if "t' \<in> set ts" for t'
    proof -
      from each that obtain q r e l' where
        r: "r \<in> set (slice0 limit (items replies))" and
        e: "lookup ?h r = Some e" and l': "props e (repliesKey e) = Some l'" and
        t': "t' = AwaitFetchMore q r (repliesKey e) l'
                    (js_minus limit (int (length (items l')))) limit (js_minus depth 1)"
        by blast
      from r have "r \<in> set (items replies)"
        using set_slice0[of limit "items replies"] by (rule subsetD[rotated])
      then have rn: "length h1 \<le> r" using items by simp
      from e have "r < length ?h" and "e = ?h ! r" by (simp_all add: lookup_Some)
      with rn l' have "\<forall>a. a \<in> set (items l') \<longrightarrow> length h1 \<le> a"
        using closed_fromD[OF c1, of r "repliesKey e" l'] by simp
      with rn show ?thesis by (simp add: t')
    qed
    with Ts ts have "\<forall>t'. t' \<in> set (pending (resume C t s)) \<longrightarrow> task_fresh (length h1) t'"
      by auto
    with p1 c1 heap show ?thesis by simp
  qed
qed

subsection \<open>The first response\<close>

lemma run_idle: "pending s = [] \<Longrightarrow> run C sched s = s"
  by (induction sched) (simp_all add: settle_idle)

lemma settle_expandReplies:
  "settle C i (expandReplies h this limit depth) =
     expandReplies_resume C this
       (case limit of None \<Rightarrow> Infinity | Some l \<Rightarrow> l)
       (case depth of None \<Rightarrow> Infinity | Some d \<Rightarrow> d)
       \<lparr>heap = h, calls = [], fetches = [], pending = [], outer = AwaitingFetch\<rparr>"
  by (simp add: settle_def expandReplies_def)

lemma expandReplies_resume_failed:
  assumes "fetch C (heap s) this = Inl e"
  shows "expandReplies_resume C this lim dep s = s\<lparr>outer := Failed e\<rparr>"
  using assms by (simp add: expandReplies_resume_def)

lemma expandReplies_resume_served:
  assumes "fetch C (heap s) this = Inr h1" and "clone C h1 this = (copy, h2)"
  shows "expandReplies_resume C this lim dep s =
           (mutateAndExpandReplies_call None copy lim dep (s\<lparr>heap := h2\<rparr>))
             \<lparr>outer := Adopted (length (calls s))\<rparr>"
  using assms by (simp add: expandReplies_resume_def)

lemma prefix_take: "prefix xs ys \<Longrightarrow> take (length xs) ys = xs"
  by (auto simp: prefix_def)

lemma frame_first:
  assumes fk: "fetch_keeps C" and cd: "clone_deep C"
  shows "\<exists>h1. prefix h h1 \<and>
     (prefix h1 (heap (settle C i (expandReplies h this limit depth))) \<and>
      closed_from (length h1) (heap (settle C i (expandReplies h this limit depth)))) \<and>
     (\<forall>t. t \<in> set (pending (settle C i (expandReplies h this limit depth))) \<longrightarrow>
        task_fresh (length h1) t)"
proof -
  let ?lim = "case limit of None \<Rightarrow> Infinity | Some l \<Rightarrow> l"
  let ?dep = "case depth of None \<Rightarrow> Infinity | Some d \<Rightarrow> d"
  let ?init = "\<lparr>heap = h, calls = [], fetches = [], pending = [], outer = AwaitingFetch\<rparr> :: 'a state"
  show ?thesis
  proof (cases "fetch C h this")
    case (Inl e)
    then have "settle C i (expandReplies h this limit depth) = ?init\<lparr>outer := Failed e\<rparr>"
      by (simp add: settle_expandReplies expandReplies_resume_failed)
    then have "prefix h h \<and>
     (prefix h (heap (settle C i (expandReplies h this limit depth))) \<and>
      closed_from (length h) (heap (settle C i (expandReplies h this limit depth)))) \<and>
     (\<forall>t. t \<in> set (pending (settle C i (expandReplies h this limit depth))) \<longrightarrow>
        task_fresh (length h) t)"
      by (simp add: closed_from_def)
    then show ?thesis by blast
  next
    case (Inr h1)
    obtain copy h2 where cl: "clone C h1 this = (copy, h2)" by (cases "clone C h1 this")
    let ?first = "?init\<lparr>heap := h2\<rparr>"
    let ?called = "mutateAndExpandReplies_call None copy ?lim ?dep ?first"
    have st: "settle C i (expandReplies h this limit depth) = ?called\<lparr>outer := Adopted 0\<rparr>"
      using Inr cl by (simp add: settle_expandReplies expandReplies_resume_served)
    from fk Inr have p0: "prefix h h1" unfolding fetch_keeps_def by blast
    from cd cl have p1: "prefix h1 h2" and fresh: "length h1 \<le> copy"
      and c1: "closed_from (length h1) h2" unfolding clone_deep_def by blast+
    have hp: "heap (settle C i (expandReplies h this limit depth)) = h2"
      by (simp add: st call_heap)
    have "\<forall>t. t \<in> set (pending ?called) \<longrightarrow> task_fresh (length h1) t"
    proof (cases rule: call_pending_cases[of None copy ?lim ?dep ?first])
      case settled
      then show ?thesis by simp
    next
      case (suspended e l)
      from suspended(2) have "copy < length h2" and "e = h2 ! copy" by (simp_all add: lookup_Some)
      with suspended(3) have "\<forall>a. a \<in> set (items l) \<longrightarrow> length h1 \<le> a"
        using closed_fromD[OF c1 fresh, of "repliesKey e" l] by simp
      with fresh show ?thesis using suspended(4) by simp
    qed
    then have "\<forall>t. t \<in> set (pending (settle C i (expandReplies h this limit depth))) \<longrightarrow>
        task_fresh (length h1) t" by (simp add: st)
    with p0 p1 c1 hp show ?thesis by auto
  qed
qed

lemma frame_run:
  fixes C :: "'c collab"
  assumes "fetch_keeps C" and "clone_deep C" and "fetchMore_keeps C" and "fetchMore_fresh C"
  shows "prefix h (heap (run C sched (expandReplies h this limit depth)))"
proof (cases sched)
  case Nil
  then show ?thesis by (simp add: expandReplies_def)
next
  case (Cons i sched')
  let ?first = "settle C i (expandReplies h this limit depth)"
  from frame_first[OF assms(1,2), of h i this limit depth] obtain h1 where
    p0: "prefix h h1" and G: "prefix h1 (heap ?first) \<and> closed_from (length h1) (heap ?first)"
    and T: "\<forall>t. t \<in> set (pending ?first) \<longrightarrow> task_fresh (length h1) t" by blast
  have "(prefix h1 (heap (run C sched' ?first)) \<and> closed_from (length h1) (heap (run C sched' ?first))) \<and>
        (\<forall>t. t \<in> set (pending (run C sched' ?first)) \<longrightarrow> task_fresh (length h1) t)"
    using G T
  proof (rule run_invariant)
    fix t :: "'c task" and s' :: "'c state"
    assume "task_fresh (length h1) t"
      and "prefix h1 (heap s') \<and> closed_from (length h1) (heap s')"
      and "\<forall>t'. t' \<in> set (pending s') \<longrightarrow> task_fresh (length h1) t'"
    with assms(3,4) show "(prefix h1 (heap (resume C t s')) \<and>
        closed_from (length h1) (heap (resume C t s'))) \<and>
        (\<forall>t'. t' \<in> set (pending (resume C t s')) \<longrightarrow> task_fresh (length h1) t')"
      by (rule frame_resume)
  qed
  then have "prefix h1 (heap (run C sched' ?first))" by simp
  with p0 have "prefix h (heap (run C sched' ?first))" by (rule prefix_order.trans)
  then show ?thesis by (simp add: Cons)
qed

subsection \<open>The expansion only adds children\<close>

lemma grown_refl: "grown h h"
  by (simp add: grown_def)

lemma grownD:
  assumes "grown h h'" and "b < length h" and "props (h ! b) key = Some l0"
  shows "\<exists>l. props (h' ! b) key = Some l \<and> subseq (items l0) (items l)"
  using assms unfolding grown_def by blast

lemma grown_set_prop:
  assumes g: "grown h2 h" and pre: "prefix h h'"
    and keep: "\<forall>l0. this < length h2 \<and> props (h2 ! this) key = Some l0 \<longrightarrow>
                 subseq (items l0) (items replies)"
  shows "grown h2 (set_prop this key replies h')"
  unfolding grown_def
proof (intro conjI allI impI)
  have len: "length h2 \<le> length h" using g by (simp add: grown_def)
  have len': "length h \<le> length h'" using pre by (rule prefix_length_le)
  show "length h2 \<le> length (set_prop this key replies h')"
    using len len' by (simp add: length_set_prop)
  fix b assume b: "b < length h2"
  then have bh: "b < length h" and bh': "b < length h'" using len len' by simp_all
  have same: "h' ! b = h ! b" using pre bh by (rule prefix_nth)
  have old: "cname (h ! b) = cname (h2 ! b) \<and> name (h ! b) = name (h2 ! b)"
    using g b by (simp add: grown_def)
  show "cname (set_prop this key replies h' ! b) = cname (h2 ! b)"
    using old same bh' by (cases "b = this") (simp_all add: nth_set_prop_same nth_set_prop_other)
  show "name (set_prop this key replies h' ! b) = name (h2 ! b)"
    using old same bh' by (cases "b = this") (simp_all add: nth_set_prop_same nth_set_prop_other)
  fix k l0 assume l0: "props (h2 ! b) k = Some l0"
  from grownD[OF g b l0] obtain l where l: "props (h ! b) k = Some l"
    and pl: "subseq (items l0) (items l)" by blast
  show "\<exists>l. props (set_prop this key replies h' ! b) k = Some l \<and> subseq (items l0) (items l)"
  proof (cases "b = this \<and> k = key")
    case True
    with keep b l0 have "subseq (items l0) (items replies)" by blast
    moreover have "props (set_prop this key replies h' ! b) k = Some replies"
      using True bh' by (simp add: nth_set_prop_same)
    ultimately show ?thesis by blast
  next
    case False
    then have "props (set_prop this key replies h' ! b) k = props (h' ! b) k"
      using bh' by (cases "b = this") (simp_all add: nth_set_prop_same nth_set_prop_other)
    with same l pl show ?thesis by simp
  qed
qed

lemma grown_resume:
  assumes ext: "fetchMore_keeps C" and con: "fetchMore_contains C"
    and T: "task_keeps h2 t"
    and G: "grown h2 (heap s)"
    and Ts: "\<forall>t'. t' \<in> set (pending s) \<longrightarrow> task_keeps h2 t'"
  shows "grown h2 (heap (resume C t s)) \<and>
         (\<forall>t'. t' \<in> set (pending (resume C t s)) \<longrightarrow> task_keeps h2 t')"
proof (cases t)
  case (AwaitFetch this limit depth)
  with T show ?thesis by simp
next
  case (AwaitFetchMore p this key l amount limit depth)
  with T have keep: "\<forall>l0. this < length h2 \<and> props (h2 ! this) key = Some l0 \<longrightarrow>
      subseq (items l0) (items l)" by simp
  show ?thesis
  proof (cases "fetchMore C (heap s) l amount")
    case (Inl e)
    with G Ts show ?thesis
      by (simp add: AwaitFetchMore resume_failed set_status_fields)
  next
    case (Inr r)
    obtain replies h' where r: "r = (replies, h')" by (cases r)
    have fm: "fetchMore C (heap s) l amount = Inr (replies, h')" using Inr r by simp
    from ext fm have pre: "prefix (heap s) h'" unfolding fetchMore_keeps_def by blast
    from con fm have more: "subseq (items l) (items replies)"
      unfolding fetchMore_contains_def by blast
    let ?h = "set_prop this key replies h'"
    have "\<forall>l0. this < length h2 \<and> props (h2 ! this) key = Some l0 \<longrightarrow>
      subseq (items l0) (items replies)"
      using keep more by (blast intro: subseq_order.trans)
    with G pre have g: "grown h2 ?h" by (rule grown_set_prop)
    have heap: "heap (resume C t s) = ?h"
      by (simp add: AwaitFetchMore resume_served_heap[OF fm])
    from resume_served_pending[OF fm, of p this key limit depth] obtain ts where
      ts: "pending (resume C t s) = pending s @ ts" and
      each: "\<forall>t. t \<in> set ts \<longrightarrow>
           (\<exists>q r e l'. r \<in> set (slice0 limit (items replies)) \<and> \<not> js_le0 (js_minus depth 1) \<and>
              lookup ?h r = Some e \<and> props e (repliesKey e) = Some l' \<and>
              t = AwaitFetchMore q r (repliesKey e) l'
                    (js_minus limit (int (length (items l')))) limit (js_minus depth 1))"
      by (auto simp: AwaitFetchMore)
    have "task_keeps h2 t'" if "t' \<in> set ts" for t'
    proof -
      from each that obtain q r e l' where
        e: "lookup ?h r = Some e" and l': "props e (repliesKey e) = Some l'" and
        t': "t' = AwaitFetchMore q r (repliesKey e) l'
                    (js_minus limit (int (length (items l')))) limit (js_minus depth 1)"
        by blast
      from e have er: "e = ?h ! r" by (simp add: lookup_Some)
      have "subseq (items l0) (items l')"
        if "r < length h2" and "props (h2 ! r) (repliesKey e) = Some l0" for l0
        using grownD[OF g that] l' er by simp
      then show ?thesis by (simp add: t')
    qed
    with Ts ts have "\<forall>t'. t' \<in> set (pending (resume C t s)) \<longrightarrow> task_keeps h2 t'"
      by auto
    with g heap show ?thesis by simp
  qed
qed

lemma grown_run:
  fixes C :: "'c collab"
  assumes ext: "fetchMore_keeps C" and con: "fetchMore_contains C"
    and f: "fetch C h this = Inr h1" and cl: "clone C h1 this = (copy, h2)"
  shows "grown h2 (heap (run C (i # sched) (expandReplies h this limit depth)))"
proof -
  let ?lim = "case limit of None \<Rightarrow> Infinity | Some l \<Rightarrow> l"
  let ?dep = "case depth of None \<Rightarrow> Infinity | Some d \<Rightarrow> d"
  let ?init = "\<lparr>heap = h2, calls = [], fetches = [], pending = [], outer = AwaitingFetch\<rparr> :: 'c state"
  let ?called = "mutateAndExpandReplies_call None copy ?lim ?dep ?init"
  let ?first = "settle C i (expandReplies h this limit depth)"
  have st: "?first = ?called\<lparr>outer := Adopted 0\<rparr>"
    using f cl by (simp add: settle_expandReplies expandReplies_resume_served)
  have G: "grown h2 (heap ?first)" by (simp add: st call_heap grown_refl)
  have "\<forall>t. t \<in> set (pending ?called) \<longrightarrow> task_keeps h2 t"
  proof (cases rule: call_pending_cases[of None copy ?lim ?dep ?init])
    case settled
    then show ?thesis by simp
  next
    case (suspended e l)
    from suspended(2) have "e = h2 ! copy" by (simp add: lookup_Some)
    with suspended(3) show ?thesis using suspended(4) by simp
  qed
  then have T: "\<forall>t. t \<in> set (pending ?first) \<longrightarrow> task_keeps h2 t" by (simp add: st)
  have "grown h2 (heap (run C sched ?first)) \<and>
        (\<forall>t. t \<in> set (pending (run C sched ?first)) \<longrightarrow> task_keeps h2 t)"
    using G T
  proof (rule run_invariant)
    fix t :: "'c task" and s' :: "'c state"
    assume "task_keeps h2 t" and "grown h2 (heap s')"
      and "\<forall>t'. t' \<in> set (pending s') \<longrightarrow> task_keeps h2 t'"
    with ext con show "grown h2 (heap (resume C t s')) \<and>
        (\<forall>t'. t' \<in> set (pending (resume C t s')) \<longrightarrow> task_keeps h2 t')"
      by (rule grown_resume)
  qed
  then show ?thesis by simp
qed

subsection \<open>Every resumed call leaves only calls with less depth to go\<close>

lemma resume_depth:
  assumes fin: "task_finite t"
  shows "\<exists>ts. pending (resume C t s) = pending s @ ts \<and>
           (\<forall>t'. t' \<in> set ts \<longrightarrow> task_finite t' \<and> task_depth t' < task_depth t)"
proof (cases t)
  case (AwaitFetch this limit depth)
  with fin obtain d where d: "depth = Number d" and b: "d \<le> 2 ^ 53" by (cases depth) simp_all
  show ?thesis
  proof (cases "fetch C (heap s) this")
    case (Inl e)
    then show ?thesis by (simp add: AwaitFetch expandReplies_resume_failed)
  next
    case (Inr h1)
    obtain copy h2 where cl: "clone C h1 this = (copy, h2)" by (cases "clone C h1 this")
    have st: "pending (resume C t s) =
        pending (mutateAndExpandReplies_call None copy limit depth (s\<lparr>heap := h2\<rparr>))"
      using Inr cl by (simp add: AwaitFetch expandReplies_resume_served)
    show ?thesis
    proof (cases rule: call_pending_cases[of None copy limit depth "s\<lparr>heap := h2\<rparr>"])
      case settled
      then show ?thesis by (simp add: st)
    next
      case (suspended e l)
      let ?t = "AwaitFetchMore (length (calls (s\<lparr>heap := h2\<rparr>))) copy (repliesKey e) l
                  (js_minus limit (int (length (items l)))) limit depth"
      have "pending (resume C t s) = pending s @ [?t]" using suspended(4) by (simp add: st)
      moreover have "\<forall>t'. t' \<in> set [?t] \<longrightarrow> task_finite t' \<and> task_depth t' < task_depth t"
        using b by (simp add: AwaitFetch d)
      ultimately show ?thesis by blast
    qed
  qed
next
  case (AwaitFetchMore p this key l amount limit depth)
  with fin obtain d where d: "depth = Number d" and b: "d \<le> 2 ^ 53" by (cases depth) simp_all
  show ?thesis
  proof (cases "fetchMore C (heap s) l amount")
    case (Inl e)
    then show ?thesis by (simp add: AwaitFetchMore resume_failed set_status_fields)
  next
    case (Inr r)
    obtain replies h' where r: "r = (replies, h')" by (cases r)
    have fm: "fetchMore C (heap s) l amount = Inr (replies, h')" using Inr r by simp
    from resume_served_pending[OF fm, of p this key limit depth] obtain ts where
      ts: "pending (resume C t s) = pending s @ ts" and
      each: "\<forall>t. t \<in> set ts \<longrightarrow>
           (\<exists>q r e l'. r \<in> set (slice0 limit (items replies)) \<and> \<not> js_le0 (js_minus depth 1) \<and>
              lookup (set_prop this key replies h') r = Some e \<and>
              props e (repliesKey e) = Some l' \<and>
              t = AwaitFetchMore q r (repliesKey e) l'
                    (js_minus limit (int (length (items l')))) limit (js_minus depth 1))"
      by (auto simp: AwaitFetchMore)
    have "task_finite t' \<and> task_depth t' < task_depth t" if "t' \<in> set ts" for t'
    proof -
      from each that obtain q r e l' where pos: "\<not> js_le0 (js_minus depth 1)" and
        "props e (repliesKey e) = Some l'" and
        t': "t' = AwaitFetchMore q r (repliesKey e) l'
                    (js_minus limit (int (length (items l')))) limit (js_minus depth 1)"
        by blast
      have "0 < d - 1"
      proof (rule ccontr)
        assume "\<not> 0 < d - 1"
        then have "round_double (d - 1) \<le> 0" by (intro round_double_nonpos) simp
        with pos d show False by simp
      qed
      moreover from this b have "\<bar>d - 1\<bar> < 2 ^ 53" by simp
      then have "js_minus depth 1 = Number (d - 1)" unfolding d by (rule js_minus_exact)
      ultimately show ?thesis using b by (simp add: t' AwaitFetchMore d)
    qed
    with ts show ?thesis by blast
  qed
qed

lemma settle_decreases:
  assumes busy: "pending s \<noteq> []" and fin: "\<forall>t. t \<in> set (pending s) \<longrightarrow> task_finite t"
  shows "(mset (map task_depth (pending (settle C i s))), mset (map task_depth (pending s)))
           \<in> mult {(a, b). a < b} \<and>
         (\<forall>t. t \<in> set (pending (settle C i s)) \<longrightarrow> task_finite t)"
proof -
  from settle_step[OF busy, of C i] obtain t rest where
    m: "mset (pending s) = add_mset t (mset rest)" and
    st: "settle C i s = resume C t (s\<lparr>pending := rest\<rparr>)" by blast
  have sets: "set (pending s) = insert t (set rest)"
    using m by (metis set_mset_add_mset_insert set_mset_mset)
  with fin have ft: "task_finite t" and fr: "\<forall>t'. t' \<in> set rest \<longrightarrow> task_finite t'" by auto
  from resume_depth[OF ft, of C "s\<lparr>pending := rest\<rparr>"] obtain ts where
    ts: "pending (settle C i s) = rest @ ts" and
    less: "\<forall>t'. t' \<in> set ts \<longrightarrow> task_finite t' \<and> task_depth t' < task_depth t"
    by (auto simp: st)
  have before: "mset (map task_depth (pending s)) =
      mset (map task_depth rest) + {#task_depth t#}"
    using m by (metis add_mset_add_single image_mset_add_mset mset_map)
  have after: "mset (map task_depth (pending (settle C i s))) =
      mset (map task_depth rest) + mset (map task_depth ts)"
    by (simp add: ts)
  have "(mset (map task_depth rest) + mset (map task_depth ts),
         mset (map task_depth rest) + {#task_depth t#}) \<in> mult {(a, b). a < b}"
  proof (rule one_step_implies_mult)
    show "{#task_depth t#} \<noteq> {#}" by simp
    show "\<forall>k\<in>#mset (map task_depth ts). \<exists>j\<in>#{#task_depth t#}. (k, j) \<in> {(a, b). a < b}"
      using less by auto
  qed
  moreover have "\<forall>t'. t' \<in> set (pending (settle C i s)) \<longrightarrow> task_finite t'"
    using fr less by (auto simp: ts)
  ultimately show ?thesis unfolding before after by blast
qed

lemma wf_depths: "wf (inv_image (mult {(a::nat, b). a < b}) (\<lambda>s. mset (map task_depth (pending s))))"
proof -
  have "{(a::nat, b). a < b} = less_than" by auto
  then show ?thesis by (simp add: wf_mult)
qed

text \<open>Whatever the order of the responses, after finitely many nothing is in flight.\<close>

lemma drains:
  fixes C :: "'c collab" and s :: "'c state"
  assumes "\<forall>t. t \<in> set (pending s) \<longrightarrow> task_finite t"
  shows "\<exists>n. pending (run C (map sched [0..<n]) s) = []"
  using assms
proof (induction s arbitrary: sched rule: wf_induct_rule[OF wf_depths])
  case (1 s)
  show ?case
  proof (cases "pending s = []")
    case True
    then have "pending (run C (map sched [0..<0]) s) = []" by simp
    then show ?thesis by blast
  next
    case False
    let ?s' = "settle C (sched 0) s"
    from settle_decreases[OF False "1.prems", of C "sched 0"]
    have less: "(?s', s) \<in> inv_image (mult {(a, b). a < b}) (\<lambda>s. mset (map task_depth (pending s)))"
      and fin: "\<forall>t. t \<in> set (pending ?s') \<longrightarrow> task_finite t" by simp_all
    from "1.IH"[OF less fin, of "\<lambda>k. sched (Suc k)"] obtain n where
      n: "pending (run C (map (\<lambda>k. sched (Suc k)) [0..<n]) ?s') = []" by blast
    have "map sched [0..<Suc n] = sched 0 # map (\<lambda>k. sched (Suc k)) [0..<n]"
      by (simp add: upt_conv_Cons map_Suc_upt[symmetric] del: upt_Suc)
    with n have "pending (run C (map sched [0..<Suc n]) s) = []" by simp
    then show ?thesis by blast
  qed
qed

subsection \<open>Every pending promise has its call in the queue\<close>

lemma call_status_new:
  "c_status (calls (mutateAndExpandReplies_call par this lim dep s) ! length (calls s)) =
     (if js_le0 dep then Fulfilled this
      else case lookup (heap s) this of
        None \<Rightarrow> Rejected TypeError
      | Some e \<Rightarrow>
          (case props e (repliesKey e) of
             None \<Rightarrow> Rejected TypeError
           | Some l \<Rightarrow> Pending))"
  by (simp only: call_calls nth_append_length call.simps)

lemma call_covered_new:
  "covered (mutateAndExpandReplies_call par this lim dep s) (length (calls s))"
proof (cases rule: call_pending_cases[of par this lim dep s])
  case settled
  show ?thesis
  proof (cases "c_status (calls (mutateAndExpandReplies_call par this lim dep s) !
                   length (calls s)) = Pending")
    case True
    then have "\<not> js_le0 dep" by (auto simp only: call_status_new split: if_splits)
    with True obtain e l where "lookup (heap s) this = Some e" "props e (repliesKey e) = Some l"
      by (auto simp only: call_status_new split: if_splits option.splits)
    with \<open>\<not> js_le0 dep\<close> settled show ?thesis by (simp add: call_pending)
  next
    case False
    then show ?thesis unfolding covered_def by blast
  qed
next
  case (suspended e l)
  let ?t = "AwaitFetchMore (length (calls s)) this (repliesKey e) l
              (js_minus lim (int (length (items l)))) lim dep"
  have "?t \<in> set (pending (mutateAndExpandReplies_call par this lim dep s))"
    by (simp only: suspended(4) set_append list.set insert_iff Un_iff simp_thms)
  moreover have "waits_for (length (calls s)) ?t" by simp
  ultimately show ?thesis unfolding covered_def by blast
qed

lemma call_covered:
  assumes "\<forall>q. q \<noteq> x \<longrightarrow> covered s q"
  shows "\<forall>q. q \<noteq> x \<longrightarrow> covered (mutateAndExpandReplies_call par this lim dep s) q"
proof (intro allI impI)
  fix q assume qx: "q \<noteq> x"
  let ?s' = "mutateAndExpandReplies_call par this lim dep s"
  show "covered ?s' q"
  proof (cases "q < length (calls s)")
    case True
    then have same: "calls ?s' ! q = calls s ! q" by (simp add: call_calls nth_append)
    have sub: "set (pending s) \<subseteq> set (pending ?s')" by (simp add: call_pending)
    from assms qx have "covered s q" by simp
    with True same sub show ?thesis unfolding covered_def by auto
  next
    case False
    show ?thesis
    proof (cases "q = length (calls s)")
      case True
      then show ?thesis by (simp add: call_covered_new)
    next
      case False
      with \<open>\<not> q < length (calls s)\<close> have "\<not> q < length (calls ?s')"
        by (simp add: call_calls)
      then show ?thesis unfolding covered_def by simp
    qed
  qed
qed

lemma fold_call_covered:
  assumes "\<forall>q. q \<noteq> x \<longrightarrow> covered s q"
  shows "\<forall>q. q \<noteq> x \<longrightarrow> covered (fold (\<lambda>r. mutateAndExpandReplies_call par r lim dep) rs s) q"
  using assms
proof (induction rs arbitrary: s)
  case Nil
  then show ?case by simp
next
  case (Cons r rs)
  from Cons.prems have "\<forall>q. q \<noteq> x \<longrightarrow> covered (mutateAndExpandReplies_call par r lim dep s) q"
    by (rule call_covered)
  then show ?case using Cons.IH by simp
qed

lemma fold_call_pending_sub:
  "set (pending s) \<subseteq> set (pending (fold (\<lambda>r. mutateAndExpandReplies_call par r lim dep) rs s))"
proof -
  from fold_call_pending[of par lim dep rs s] obtain ts where
    "pending (fold (\<lambda>r. mutateAndExpandReplies_call par r lim dep) rs s) = pending s @ ts"
    by blast
  then show ?thesis by simp
qed

lemma fold_call_length:
  "length (calls s) \<le> length (calls (fold (\<lambda>r. mutateAndExpandReplies_call par r lim dep) rs s))"
  using fold_call_calls_prefix[of s par lim dep rs] by (rule prefix_length_le)

lemma set_status_covered:
  assumes "\<forall>q. q \<noteq> p \<longrightarrow> covered s q" and "v \<noteq> Pending"
  shows "covered (set_status p v s) q"
proof (cases "q = p")
  case True
  with assms(2) show ?thesis unfolding covered_def by (auto simp: set_status_fields)
next
  case False
  with assms(1) have "covered s q" by simp
  with False show ?thesis unfolding covered_def by (simp add: set_status_fields)
qed

lemma linked_resume:
  assumes L: "linked s" and m: "set (pending s) = insert t (set rest)"
  shows "linked (resume C t (s\<lparr>pending := rest\<rparr>))"
proof (cases t)
  case (AwaitFetch this limit depth)
  let ?s' = "s\<lparr>pending := rest\<rparr>"
  have cov: "covered ?s' q" for q
  proof -
    from L have c: "covered s q" by (simp add: linked_def)
    show ?thesis unfolding covered_def
    proof
      assume A: "q < length (calls ?s') \<and> c_status (calls ?s' ! q) = Pending"
      with c obtain t' where "t' \<in> set (pending s)" and w: "waits_for q t'"
        unfolding covered_def by auto
      with m AwaitFetch have "t' \<in> set rest" by auto
      with w show "\<exists>t. t \<in> set (pending ?s') \<and> waits_for q t" by auto
    qed
  qed
  show ?thesis
  proof (cases "fetch C (heap s) this")
    case (Inl e)
    then have "resume C t ?s' = ?s'\<lparr>outer := Failed e\<rparr>"
      by (simp add: AwaitFetch expandReplies_resume_failed)
    moreover have "covered (?s'\<lparr>outer := Failed e\<rparr>) q" for q
      using cov[of q] unfolding covered_def by simp
    ultimately show ?thesis by (simp add: linked_def)
  next
    case (Inr h1)
    obtain copy h2 where cl: "clone C h1 this = (copy, h2)" by (cases "clone C h1 this")
    let ?c = "mutateAndExpandReplies_call None copy limit depth (?s'\<lparr>heap := h2\<rparr>)"
    have st: "resume C t ?s' = ?c\<lparr>outer := Adopted (length (calls s))\<rparr>"
      using Inr cl by (simp add: AwaitFetch expandReplies_resume_served)
    have "\<forall>q. q \<noteq> length (calls s) \<longrightarrow> covered (?s'\<lparr>heap := h2\<rparr>) q"
      using cov unfolding covered_def by simp
    then have "\<forall>q. q \<noteq> length (calls s) \<longrightarrow> covered ?c q" by (rule call_covered)
    moreover have "covered ?c (length (calls s))"
      using call_covered_new[of None copy limit depth "?s'\<lparr>heap := h2\<rparr>"] by simp
    ultimately have "covered ?c q" for q by (cases "q = length (calls s)") simp_all
    then have "covered (?c\<lparr>outer := Adopted (length (calls s))\<rparr>) q" for q
      unfolding covered_def by simp
    then show ?thesis by (simp add: st linked_def call_calls)
  qed
next
  case (AwaitFetchMore p this key l amount limit depth)
  let ?s' = "s\<lparr>pending := rest\<rparr>"
  have cov: "covered ?s' q" if "q \<noteq> p" for q
  proof -
    from L have c: "covered s q" by (simp add: linked_def)
    show ?thesis unfolding covered_def
    proof
      assume A: "q < length (calls ?s') \<and> c_status (calls ?s' ! q) = Pending"
      with c obtain t' where "t' \<in> set (pending s)" and w: "waits_for q t'"
        unfolding covered_def by auto
      with m AwaitFetchMore that have "t' \<in> set rest" by auto
      with w show "\<exists>t. t \<in> set (pending ?s') \<and> waits_for q t" by auto
    qed
  qed
  have fetching: "outer s = AwaitingFetch \<longrightarrow> (\<exists>t. t \<in> set rest \<and> is_fetch t)"
  proof
    assume "outer s = AwaitingFetch"
    with L obtain t' where "t' \<in> set (pending s)" and f: "is_fetch t'" by (auto simp: linked_def)
    with m AwaitFetchMore have "t' \<in> set rest" by auto
    with f show "\<exists>t. t \<in> set rest \<and> is_fetch t" by blast
  qed
  from L have adopted: "\<forall>q. outer s = Adopted q \<longrightarrow> q < length (calls s)" by (simp add: linked_def)
  show ?thesis
  proof (cases "fetchMore C (heap s) l amount")
    case (Inl e)
    then have st: "resume C t ?s' = set_status p (Rejected e) ?s'"
      by (simp add: AwaitFetchMore resume_failed)
    have "covered (set_status p (Rejected e) ?s') q" for q
      using cov by (intro set_status_covered) simp_all
    with fetching adopted show ?thesis
      by (simp add: st linked_def set_status_fields)
  next
    case (Inr r)
    obtain replies h' where r: "r = (replies, h')" by (cases r)
    have fm: "fetchMore C (heap ?s') l amount = Inr (replies, h')" using Inr r by simp
    let ?f = "fold (\<lambda>reply. mutateAndExpandReplies_call (Some p) reply limit (js_minus depth 1))
                (slice0 limit (items replies)) (?s'\<lparr>heap := set_prop this key replies h'\<rparr>)"
    have st: "resume C t ?s' = set_status p (Fulfilled this) ?f"
      using resume_served[OF fm, of p this key limit depth] by (simp add: AwaitFetchMore)
    have "\<forall>q. q \<noteq> p \<longrightarrow> covered (?s'\<lparr>heap := set_prop this key replies h'\<rparr>) q"
      using cov unfolding covered_def by simp
    then have "\<forall>q. q \<noteq> p \<longrightarrow> covered ?f q" by (rule fold_call_covered)
    then have c: "covered (set_status p (Fulfilled this) ?f) q" for q
      by (intro set_status_covered) simp_all
    have sub: "set rest \<subseteq> set (pending ?f)"
      using fold_call_pending_sub[of "?s'\<lparr>heap := set_prop this key replies h'\<rparr>"
          "Some p" limit "js_minus depth 1" "slice0 limit (items replies)"] by simp
    have len: "length (calls s) \<le> length (calls ?f)"
      using fold_call_length[of "?s'\<lparr>heap := set_prop this key replies h'\<rparr>"
          "Some p" limit "js_minus depth 1" "slice0 limit (items replies)"] by simp
    have out: "outer ?f = outer s" by (simp add: fold_call_outer)
    have "outer s = AwaitingFetch \<longrightarrow> (\<exists>t. t \<in> set (pending ?f) \<and> is_fetch t)"
      using fetching sub by blast
    moreover have "\<forall>q. outer s = Adopted q \<longrightarrow> q < length (calls ?f)"
      using adopted len by auto
    ultimately show ?thesis using c out
      by (simp add: st linked_def set_status_fields)
  qed
qed

lemma linked_settle: "linked s \<Longrightarrow> linked (settle C i s)"
proof (cases "pending s = []")
  case True
  assume "linked s"
  with True show ?thesis by (simp add: settle_idle)
next
  case False
  assume L: "linked s"
  from settle_step[OF False, of C i] obtain t rest where
    m: "mset (pending s) = add_mset t (mset rest)" and
    st: "settle C i s = resume C t (s\<lparr>pending := rest\<rparr>)" by blast
  have "set (pending s) = insert t (set rest)"
    using m by (metis set_mset_add_mset_insert set_mset_mset)
  with L show ?thesis unfolding st by (rule linked_resume)
qed

lemma linked_run: "linked s \<Longrightarrow> linked (run C sched s)"
  by (induction sched arbitrary: s) (simp_all add: linked_settle)

lemma linked_expandReplies: "linked (expandReplies h this limit depth)"
  by (simp add: linked_def covered_def expandReplies_def)

lemma linked_idle:
  assumes "linked s" and "pending s = []"
  shows "expandReplies_outcome s \<noteq> Pending \<and> list_all (\<lambda>c. c_status c \<noteq> Pending) (calls s)"
proof -
  have all: "c_status (calls s ! q) \<noteq> Pending" if "q < length (calls s)" for q
    using assms that unfolding linked_def covered_def by auto
  then have "list_all (\<lambda>c. c_status c \<noteq> Pending) (calls s)"
    by (auto simp: list_all_length)
  moreover have "expandReplies_outcome s \<noteq> Pending"
  proof (cases "outer s")
    case AwaitingFetch
    with assms show ?thesis by (simp add: linked_def)
  next
    case (Failed e)
    then show ?thesis by (simp add: expandReplies_outcome_def)
  next
    case (Adopted q)
    with assms(1) have "q < length (calls s)" by (simp add: linked_def)
    with all[of q] Adopted show ?thesis by (simp add: expandReplies_outcome_def)
  qed
  ultimately show ?thesis by simp
qed

subsection \<open>The test doubles\<close>

lemma comment_fields:
  "cname (comment nm rs c) = ''Comment''"
  "name (comment nm rs c) = nm"
  "props (comment nm rs c) ''replies'' = Some \<lparr>items = rs, cursor = c\<rparr>"
  "repliesKey (comment nm rs c) = ''replies''"
  by (simp_all add: comment_def repliesKey_def)

lemma submission_fields:
  "cname (submission nm cs c) = ''Submission''"
  "name (submission nm cs c) = nm"
  "props (submission nm cs c) ''comments'' = Some \<lparr>items = cs, cursor = c\<rparr>"
  "repliesKey (submission nm cs c) = ''comments''"
  by (simp_all add: submission_def repliesKey_def)

lemma comment_set:
  "(comment nm rs c)\<lparr>props := (props (comment nm rs c))(''replies'' \<mapsto> \<lparr>items = rs', cursor = c'\<rparr>)\<rparr> =
     comment nm rs' c'"
  by (simp add: comment_def)

lemma submission_set:
  "(submission nm cs c)\<lparr>props := (props (submission nm cs c))(''comments'' \<mapsto> \<lparr>items = cs', cursor = c'\<rparr>)\<rparr> =
     submission nm cs' c'"
  by (simp add: submission_def)

lemma shift_comment: "shift k (comment nm rs c) = comment nm (map (\<lambda>a. a + k) rs) c"
  by (simp add: shift_def comment_def fun_eq_iff)

lemma shift_submission: "shift k (submission nm cs c) = submission nm (map (\<lambda>a. a + k) cs) c"
  by (simp add: shift_def submission_def fun_eq_iff)

lemma double_fields:
  "fetch double h this = Inr h"
  "clone double = clone_whole"
  "fetchMore double = served"
  by (simp_all add: double_def)

lemma step1: "settle double 0 (expandReplies thread 0 (Some (Number 5)) (Some (Number 3))) = thread_cloned"
  by (simp add: settle_expandReplies expandReplies_resume_def double_fields clone_whole_def
      thread_def shift_comment shift_submission mutateAndExpandReplies_call_def lookup_def
      submission_fields thread_cloned_def Let_def eval_nat_numeral round_double_exact)

lemma step2: "settle double 0 thread_cloned = thread_root_served"
  by (simp add: settle_def thread_cloned_def thread_root_served_def mutateAndExpandReplies_resume_def
      double_fields served_def set_prop_def set_status_def submission_set
      mutateAndExpandReplies_call_def lookup_def comment_fields Let_def eval_nat_numeral
      upt_rec round_double_exact)

lemma double_fetch_keeps: "fetch_keeps double"
  by (simp add: fetch_keeps_def double_fields)

lemma props_shift:
  "props (shift k e) key = Some l \<Longrightarrow> a \<in> set (items l) \<Longrightarrow> k \<le> a"
  by (auto simp: shift_def)

lemma double_clone_deep: "clone_deep double"
  unfolding clone_deep_def
proof (intro allI impI)
  fix h :: "(error + nat) heap" and this copy h'
  assume "clone double h this = (copy, h')"
  then have copy: "copy = this + length h" and h': "h' = h @ map (shift (length h)) h"
    by (simp_all add: double_fields clone_whole_def)
  have "closed_from (length h) h'"
    unfolding closed_from_def
  proof (intro allI impI)
    fix b key l a
    assume A: "length h \<le> b \<and> b < length h' \<and> props (h' ! b) key = Some l \<and> a \<in> set (items l)"
    then have "length h \<le> b" and "b < length h'" by simp_all
    then have "h' ! b = shift (length h) (h ! (b - length h))"
      by (simp add: h' nth_append)
    with A show "length h \<le> a" using props_shift[of "length h" "h ! (b - length h)" key l a]
      by simp
  qed
  then show "prefix h h' \<and> length h \<le> copy \<and> closed_from (length h) h'"
    by (simp add: copy h')
qed

lemma served_cases:
  assumes "served h l amount = Inr (l', h')"
  shows "(l' = l \<and> h' = h) \<or>
         (\<exists>m k. l' = \<lparr>items = items l @ [length h ..< length h + m], cursor = Inr k\<rparr> \<and>
                h' = h @ replicate m (comment ''t1_new'' [] (Inr 0)))"
  using assms by (auto simp: served_def Let_def split: if_splits sum.splits)

lemma double_fetchMore_keeps: "fetchMore_keeps double"
  unfolding fetchMore_keeps_def
proof (intro allI impI)
  fix h :: "(error + nat) heap" and l amount l' h'
  assume "fetchMore double h l amount = Inr (l', h')"
  then have "served h l amount = Inr (l', h')" by (simp add: double_fields)
  from served_cases[OF this] show "prefix h h'" by auto
qed

lemma double_fetchMore_contains: "fetchMore_contains double"
  unfolding fetchMore_contains_def
proof (intro allI impI)
  fix h :: "(error + nat) heap" and l amount l' h'
  assume "fetchMore double h l amount = Inr (l', h')"
  then have "served h l amount = Inr (l', h')" by (simp add: double_fields)
  from served_cases[OF this] have "prefix (items l) (items l')" by auto
  then show "subseq (items l) (items l')" by (rule prefix_imp_subseq)
qed

lemma double_fetchMore_fresh: "fetchMore_fresh double"
  unfolding fetchMore_fresh_def
proof (intro allI impI)
  fix h :: "(error + nat) heap" and l amount l' h'
  assume "fetchMore double h l amount = Inr (l', h')"
  then have "served h l amount = Inr (l', h')" by (simp add: double_fields)
  from served_cases[OF this]
  show "(\<forall>a. a \<in> set (items l') \<longrightarrow> a \<in> set (items l) \<or> length h \<le> a) \<and>
        closed_from (length h) h'"
  proof
    assume "l' = l \<and> h' = h"
    then show ?thesis by (simp add: closed_from_def)
  next
    assume "\<exists>m k. l' = \<lparr>items = items l @ [length h ..< length h + m], cursor = Inr k\<rparr> \<and>
                h' = h @ replicate m (comment ''t1_new'' [] (Inr 0))"
    then obtain m k where l': "l' = \<lparr>items = items l @ [length h ..< length h + m], cursor = Inr k\<rparr>"
      and h': "h' = h @ replicate m (comment ''t1_new'' [] (Inr 0))" by blast
    have "closed_from (length h) h'"
      unfolding closed_from_def
    proof (intro allI impI)
      fix b key la a
      assume A: "length h \<le> b \<and> b < length h' \<and> props (h' ! b) key = Some la \<and> a \<in> set (items la)"
      then have "length h \<le> b" and "b < length h'" by simp_all
      then have "h' ! b = comment ''t1_new'' [] (Inr 0)" by (simp add: h' nth_append)
      with A show "length h \<le> a" by (auto simp: comment_def split: if_splits)
    qed
    then show ?thesis by (auto simp: l')
  qed
qed

lemma double_fetchMore_noop: "fetchMore_noop double"
  by (simp add: fetchMore_noop_def double_fields served_def)

subsection \<open>A run of the expansion on the thread\<close>

lemma step3: "settle double 0 thread_root_served = thread_child_failed"
  by (simp add: settle_def thread_root_served_def thread_child_failed_def
      mutateAndExpandReplies_resume_def double_fields served_def set_status_def Let_def)

lemma run3:
  "run double [0, 0, 0] (expandReplies thread 0 (Some (Number 5)) (Some (Number 3))) =
     thread_child_failed"
  by (simp add: step1 step2 step3)

lemma run2:
  "run double [0, 0] (expandReplies thread 0 (Some (Number 5)) (Some (Number 3))) =
     thread_root_served"
  by (simp add: step1 step2)

subsection \<open>The calls a resumed call issues\<close>

lemma set_status_calls_proj:
  "map (\<lambda>c. (c_this c, c_limit c, c_depth c, c_parent c)) (calls (set_status p v s)) =
   map (\<lambda>c. (c_this c, c_limit c, c_depth c, c_parent c)) (calls s)"
proof (cases "p < length (calls s)")
  case True
  have "map (\<lambda>c. (c_this c, c_limit c, c_depth c, c_parent c))
          ((calls s)[p := (calls s ! p)\<lparr>c_status := v\<rparr>]) =
        (map (\<lambda>c. (c_this c, c_limit c, c_depth c, c_parent c)) (calls s))
          [p := map (\<lambda>c. (c_this c, c_limit c, c_depth c, c_parent c)) (calls s) ! p]"
    using True by (simp add: map_update)
  then show ?thesis by (simp add: set_status_fields)
next
  case False
  then show ?thesis by (simp add: set_status_fields list_update_beyond)
qed

lemma resume_served_calls:
  assumes "fetchMore C (heap s) l amount = Inr (replies, h')"
  shows "map (\<lambda>c. (c_this c, c_limit c, c_depth c, c_parent c))
           (drop (length (calls s))
              (calls (mutateAndExpandReplies_resume C p this key l amount limit depth s))) =
         map (\<lambda>r. (r, limit, js_minus depth 1, Some p)) (slice0 limit (items replies))"
proof -
  let ?f = "fold (\<lambda>reply. mutateAndExpandReplies_call (Some p) reply limit (js_minus depth 1))
              (slice0 limit (items replies)) (s\<lparr>heap := set_prop this key replies h'\<rparr>)"
  have "map (\<lambda>c. (c_this c, c_limit c, c_depth c, c_parent c))
          (calls (mutateAndExpandReplies_resume C p this key l amount limit depth s)) =
        map (\<lambda>c. (c_this c, c_limit c, c_depth c, c_parent c)) (calls ?f)"
    by (simp only: resume_served[OF assms] set_status_calls_proj)
  also have "\<dots> = map (\<lambda>c. (c_this c, c_limit c, c_depth c, c_parent c)) (calls s) @
        map (\<lambda>r. (r, limit, js_minus depth 1, Some p)) (slice0 limit (items replies))"
    by (simp add: fold_call_calls)
  finally have "drop (length (calls s))
      (map (\<lambda>c. (c_this c, c_limit c, c_depth c, c_parent c))
          (calls (mutateAndExpandReplies_resume C p this key l amount limit depth s))) =
      map (\<lambda>r. (r, limit, js_minus depth 1, Some p)) (slice0 limit (items replies))"
    by simp
  then show ?thesis by (simp only: drop_map)
qed

subsection \<open>A depth that does not decrease\<close>

lemma endless_fields:
  "fetch endless h this = Inr h"
  "clone endless = clone_whole"
  "fetchMore endless h l (Number 1) =
     Inr (\<lparr>items = items l @ [length h], cursor = ()\<rparr>, h @ [comment ''t1_new'' [] ()])"
  by (simp_all add: endless_def)

lemma stuck_call:
  assumes "lookup (heap s) r = Some (comment nm [] ())"
  shows "pending (mutateAndExpandReplies_call par r (Number 1) (Number 9007199254740996) s) =
           pending s @ [AwaitFetchMore (length (calls s)) r ''replies'' \<lparr>items = [], cursor = ()\<rparr>
                          (Number 1) (Number 1) (Number 9007199254740996)]"
  using assms by (simp add: call_pending comment_fields round_double_exact)

lemma stuck_first:
  "stuck (settle endless 0
     (expandReplies lone_comment 0 (Some (Number 1)) (Some (Number 9007199254740996))))"
proof -
  let ?h = "[comment ''t1_a'' [] (), comment ''t1_a'' [] ()] :: unit heap"
  let ?init = "\<lparr>heap = ?h, calls = [], fetches = [], pending = [], outer = AwaitingFetch\<rparr>
                :: unit state"
  let ?called = "mutateAndExpandReplies_call None 1 (Number 1) (Number 9007199254740996) ?init"
  have st: "settle endless 0
      (expandReplies lone_comment 0 (Some (Number 1)) (Some (Number 9007199254740996))) =
      ?called\<lparr>outer := Adopted 0\<rparr>"
    by (simp add: settle_expandReplies expandReplies_resume_def endless_fields clone_whole_def
        lone_comment_def shift_comment)
  have "lookup (heap ?init) 1 = Some (comment ''t1_a'' [] ())" by (simp add: lookup_def)
  then have "pending ?called =
      [AwaitFetchMore 0 1 ''replies'' \<lparr>items = [], cursor = ()\<rparr>
         (Number 1) (Number 1) (Number 9007199254740996)]"
    using stuck_call[of ?init 1 "''t1_a''" None] by simp
  then show ?thesis unfolding stuck_def st by (simp add: call_heap)
qed

lemma stuck_settle:
  assumes "stuck s"
  shows "stuck (settle endless i s)"
proof -
  from assms obtain p this where valid: "this < length (heap s)" and
    pend: "pending s = [AwaitFetchMore p this ''replies'' \<lparr>items = [], cursor = ()\<rparr>
                       (Number 1) (Number 1) (Number 9007199254740996)]"
    unfolding stuck_def by blast
  let ?l = "\<lparr>items = [], cursor = ()\<rparr> :: unit listing"
  let ?idle = "s\<lparr>pending := []\<rparr>"
  let ?r = "length (heap s)"
  let ?replies = "\<lparr>items = [?r], cursor = ()\<rparr> :: unit listing"
  let ?h' = "heap s @ [comment ''t1_new'' [] ()]"
  let ?written = "?idle\<lparr>heap := set_prop this ''replies'' ?replies ?h'\<rparr>"
  have st: "settle endless i s =
      mutateAndExpandReplies_resume endless p this ''replies'' ?l
        (Number 1) (Number 1) (Number 9007199254740996) ?idle"
    by (simp add: settle_def pend)
  have fm: "fetchMore endless (heap ?idle) ?l (Number 1) = Inr (?replies, ?h')"
    by (simp add: endless_fields)
  have res: "settle endless i s =
      set_status p (Fulfilled this)
        (mutateAndExpandReplies_call (Some p) ?r (Number 1) (Number 9007199254740996) ?written)"
    unfolding st resume_served[OF fm] by (simp add: js_minus_stuck del: js_minus.simps)
  have "set_prop this ''replies'' ?replies ?h' ! ?r = ?h' ! ?r"
    using valid by (intro nth_set_prop_other) simp
  then have "lookup (heap ?written) ?r = Some (comment ''t1_new'' [] ())"
    by (simp add: lookup_def length_set_prop)
  then have "pending (mutateAndExpandReplies_call (Some p) ?r (Number 1)
        (Number 9007199254740996) ?written) =
      [AwaitFetchMore (length (calls s)) ?r ''replies'' ?l
         (Number 1) (Number 1) (Number 9007199254740996)]"
    using stuck_call[of ?written ?r "''t1_new''" "Some p"] by simp
  moreover have "?r < length (heap (settle endless i s))"
    unfolding res by (simp add: set_status_fields call_heap length_set_prop)
  ultimately show ?thesis unfolding stuck_def res by (simp add: set_status_fields)
qed

lemma stuck_run: "stuck s \<Longrightarrow> stuck (run endless sched s)"
  by (induction sched arbitrary: s) (simp_all add: stuck_settle)

section \<open>The claims\<close>

text \<open>
  C1 says that a failed \<^verbatim>\<open>fetchMore\<close> on a descendant Listing makes the promise of
  \<^verbatim>\<open>expandReplies\<close> fail. The code does otherwise: on \<open>thread\<close>, with limit 5 and
  depth 3, the request on the replies of the first comment (the second level of three)
  fails and rejects the promise of that recursive call, which nothing awaits; the promise
  of \<^verbatim>\<open>expandReplies\<close> is fulfilled with the clone.
\<close>

theorem child_failure_is_lost:
  "expandReplies_outcome
     (run double [0, 0, 0] (expandReplies thread 0 (Some (Number 5)) (Some (Number 3)))) =
     Fulfilled 3 \<and>
   map c_status
     (calls (run double [0, 0, 0] (expandReplies thread 0 (Some (Number 5)) (Some (Number 3))))) =
     [Fulfilled 3, Rejected (ServiceError ''503''), Pending]"
  unfolding run3 by (simp add: thread_child_failed_def expandReplies_outcome_def)

text \<open>
  C2 says that the promise of a step resolves only after the recursive calls it issued
  have resolved. The code does otherwise: on \<open>thread\<close>, with limit 5 and depth 3, once
  the request on the comments of the clone is answered the promise of the root call, and
  with it the promise of \<^verbatim>\<open>expandReplies\<close>, is fulfilled, while the two calls it issued
  are pending, their requests in flight.
\<close>

theorem root_resolves_before_children:
  "expandReplies_outcome
     (run double [0, 0] (expandReplies thread 0 (Some (Number 5)) (Some (Number 3)))) =
     Fulfilled 3 \<and>
   map (\<lambda>c. (c_parent c, c_status c))
     (calls (run double [0, 0] (expandReplies thread 0 (Some (Number 5)) (Some (Number 3))))) =
     [(None, Fulfilled 3), (Some 0, Pending), (Some 0, Pending)] \<and>
   length (pending (run double [0, 0]
     (expandReplies thread 0 (Some (Number 5)) (Some (Number 3))))) = 2"
  unfolding run2 by (simp add: thread_root_served_def expandReplies_outcome_def)

text \<open>
  C3: \<^verbatim>\<open>expandReplies\<close> leaves the entity it is called on, and every other object that
  existed before the call, as it was. Under the contracts of the collaborators
  (\<^verbatim>\<open>fetch\<close> and \<^verbatim>\<open>fetchMore\<close> leave the existing objects as they are, the deep clone
  shares nothing with its source, the entities \<^verbatim>\<open>fetchMore\<close> adds are new), at every
  moment of the expansion, in whatever order the responses arrive, the store still starts
  with the store \<open>h\<close> of before the call: every write went to the clone or to an object
  fetched for it.
\<close>

theorem expandReplies_leaves_original:
  fixes C :: "'c collab"
  assumes "fetch_keeps C" and "clone_deep C" and "fetchMore_keeps C" and "fetchMore_fresh C"
  shows "take (length h) (heap (run C sched (expandReplies h this limit depth))) = h"
  using frame_run[OF assms] by (rule prefix_take)

theorem expandReplies_leaves_original_witness:
  "take (length thread)
     (heap (run double [0, 0, 0] (expandReplies thread 0 (Some (Number 5)) (Some (Number 3))))) =
   thread"
  using double_fetch_keeps double_clone_deep double_fetchMore_keeps double_fetchMore_fresh
  by (rule expandReplies_leaves_original)

text \<open>
  C4: with \<^verbatim>\<open>depth <= 0\<close> the recursive step returns its node at once, with no request
  and no write. So, when \<^verbatim>\<open>fetch\<close> has answered, \<^verbatim>\<open>expandReplies\<close> with such a depth
  is fulfilled with the deep clone, the store is the one the clone was made in (the clone
  has the shape the deep clone gave it, which is the shape of the original when the deep
  clone keeps the shape), no \<^verbatim>\<open>fetchMore\<close> request was issued and none is in flight.
\<close>

theorem depth_zero_returns_clone:
  fixes C :: "'c collab"
  assumes "fetch C h this = Inr h1" and "clone C h1 this = (copy, h2)" and "js_le0 depth"
  shows "run C (i # sched) (expandReplies h this limit (Some depth)) =
           \<lparr>heap = h2,
            calls = [\<lparr>c_this = copy,
                      c_limit = (case limit of None \<Rightarrow> Infinity | Some l \<Rightarrow> l),
                      c_depth = depth, c_parent = None, c_status = Fulfilled copy\<rparr>],
            fetches = [], pending = [], outer = Adopted 0\<rparr> \<and>
         expandReplies_outcome (run C (i # sched) (expandReplies h this limit (Some depth))) =
           Fulfilled copy \<and>
         (shape n h2 copy = shape n h this \<longrightarrow>
            shape n (heap (run C (i # sched) (expandReplies h this limit (Some depth)))) copy =
              shape n h this) \<and>
         mutateAndExpandReplies_call par node lim depth s =
           s\<lparr>calls := calls s @ [\<lparr>c_this = node, c_limit = lim, c_depth = depth,
                                  c_parent = par, c_status = Fulfilled node\<rparr>]\<rparr>"
proof -
  let ?r = "\<lparr>heap = h2,
            calls = [\<lparr>c_this = copy,
                      c_limit = (case limit of None \<Rightarrow> Infinity | Some l \<Rightarrow> l),
                      c_depth = depth, c_parent = None, c_status = Fulfilled copy\<rparr>],
            fetches = [], pending = [], outer = Adopted 0\<rparr> :: 'c state"
  have first: "settle C i (expandReplies h this limit (Some depth)) = ?r"
    using assms
    by (simp add: settle_expandReplies expandReplies_resume_served mutateAndExpandReplies_call_def)
  have "run C sched ?r = ?r" by (rule run_idle) simp
  with first have r: "run C (i # sched) (expandReplies h this limit (Some depth)) = ?r" by simp
  have step: "mutateAndExpandReplies_call par node lim depth s =
           s\<lparr>calls := calls s @ [\<lparr>c_this = node, c_limit = lim, c_depth = depth,
                                  c_parent = par, c_status = Fulfilled node\<rparr>]\<rparr>"
    using assms(3) by (simp add: mutateAndExpandReplies_call_def)
  show ?thesis unfolding r using step by (simp add: expandReplies_outcome_def)
qed

theorem depth_zero_returns_clone_witness:
  "run double [0] (expandReplies thread 0 None (Some (Number 0))) =
     \<lparr>heap = heap thread_cloned,
      calls = [\<lparr>c_this = 3, c_limit = Infinity, c_depth = Number 0, c_parent = None,
                c_status = Fulfilled 3\<rparr>],
      fetches = [], pending = [], outer = Adopted 0\<rparr> \<and>
   expandReplies_outcome (run double [0] (expandReplies thread 0 None (Some (Number 0)))) =
     Fulfilled 3 \<and>
   shape 3 (heap (run double [0] (expandReplies thread 0 None (Some (Number 0))))) 3 =
     Shape [Shape [Shape []]] \<and>
   shape 3 thread 0 = Shape [Shape [Shape []]]"
proof -
  have f: "fetch double thread 0 = Inr thread" by (simp add: double_fields)
  have c: "clone double thread 0 = (3, heap thread_cloned)"
    by (simp add: double_fields clone_whole_def thread_def thread_cloned_def
        shift_comment shift_submission eval_nat_numeral)
  have z: "js_le0 (Number 0)" by simp
  have s1: "shape 3 thread 0 = Shape [Shape [Shape []]]"
    by (simp add: eval_nat_numeral thread_def lookup_def submission_fields comment_fields)
  have s2: "shape 3 (heap thread_cloned) 3 = Shape [Shape [Shape []]]"
    by (simp add: eval_nat_numeral thread_cloned_def lookup_def submission_fields comment_fields)
  from depth_zero_returns_clone[OF f c z, where i = 0 and sched = "[]" and limit = None
      and n = 3 and par = None and node = 0 and lim = Infinity and s = two_replies] s1 s2
  show ?thesis by (simp add: expandReplies_outcome_def)
qed

text \<open>
  C5: the expansion only adds children. If \<^verbatim>\<open>fetchMore\<close> returns a Listing that
  contains the items of the Listing it was called on, in the same order, and leaves the
  existing objects as they are, then every object \<open>b\<close> of the cloned tree (the store
  \<open>h2\<close> right after the clone) keeps its constructor and name, and the items of each
  Listing it held then are, at every later moment and for every limit and depth, among
  the items of the Listing it holds, in the same order.
\<close>

theorem expansion_keeps_children:
  fixes C :: "'c collab"
  assumes "fetchMore_keeps C" and "fetchMore_contains C"
    and "fetch C h this = Inr h1" and "clone C h1 this = (copy, h2)"
    and "b < length h2" and "props (h2 ! b) key = Some l0"
  shows "b < length (heap (run C (i # sched) (expandReplies h this limit depth))) \<and>
         cname (heap (run C (i # sched) (expandReplies h this limit depth)) ! b) = cname (h2 ! b) \<and>
         name (heap (run C (i # sched) (expandReplies h this limit depth)) ! b) = name (h2 ! b) \<and>
         (\<exists>l. props (heap (run C (i # sched) (expandReplies h this limit depth)) ! b) key = Some l \<and>
              subseq (items l0) (items l))"
proof -
  have "grown h2 (heap (run C (i # sched) (expandReplies h this limit depth)))"
    using assms(1,2,3,4) by (rule grown_run)
  with assms(5,6) show ?thesis unfolding grown_def by auto
qed

theorem expansion_keeps_children_witness:
  "3 < length (heap (run double [0, 0, 0]
         (expandReplies thread 0 (Some (Number 5)) (Some (Number 3))))) \<and>
   (\<exists>l. props (heap (run double [0, 0, 0]
            (expandReplies thread 0 (Some (Number 5)) (Some (Number 3)))) ! 3) ''comments'' = Some l \<and>
        subseq [4] (items l))"
proof -
  have f: "fetch double thread 0 = Inr thread" by (simp add: double_fields)
  have c: "clone double thread 0 = (3, heap thread_cloned)"
    by (simp add: double_fields clone_whole_def thread_def thread_cloned_def
        shift_comment shift_submission eval_nat_numeral)
  have b: "3 < length (heap thread_cloned)" by (simp add: thread_cloned_def)
  have p: "props (heap thread_cloned ! 3) ''comments'' = Some \<lparr>items = [4], cursor = Inr 1\<rparr>"
    by (simp add: thread_cloned_def submission_fields)
  from expansion_keeps_children[OF double_fetchMore_keeps double_fetchMore_contains f c b p,
      of 0 "[0, 0]"
      "Some (Number 5)" "Some (Number 3)"]
  show ?thesis by simp
qed

text \<open>
  C6: when the response of \<^verbatim>\<open>fetchMore\<close> arrives with the Listing \<open>replies\<close>, the
  step calls itself on exactly the first \<open>limit\<close> items of \<open>replies\<close> (all of them
  for \<^verbatim>\<open>Infinity\<close>), in order, each with the same limit and with \<open>depth - 1\<close>. The
  receiver then holds the whole of \<open>replies\<close>, also the items beyond \<open>limit\<close>,
  and no other object is written to. The witness is the node with two children and
  limit 1: it keeps both children, the second is untouched, the step is called on the
  first only.
\<close>

theorem recursion_targets:
  fixes C :: "'c collab"
  assumes "fetchMore C (heap s) l amount = Inr (replies, h')"
    and "limit = Infinity \<or> (\<exists>n. limit = Number n \<and> 0 \<le> n)"
  shows "map (\<lambda>c. (c_this c, c_limit c, c_depth c, c_parent c))
           (drop (length (calls s))
              (calls (mutateAndExpandReplies_resume C p this key l amount limit depth s))) =
         map (\<lambda>r. (r, limit, js_minus depth 1, Some p))
           (case limit of Infinity \<Rightarrow> items replies | Number n \<Rightarrow> take (nat n) (items replies)) \<and>
         (this < length h' \<longrightarrow>
            props (heap (mutateAndExpandReplies_resume C p this key l amount limit depth s) ! this)
              key = Some replies) \<and>
         (\<forall>b. b \<noteq> this \<longrightarrow>
            heap (mutateAndExpandReplies_resume C p this key l amount limit depth s) ! b = h' ! b)"
proof -
  have "slice0 limit (items replies) =
      (case limit of Infinity \<Rightarrow> items replies | Number n \<Rightarrow> take (nat n) (items replies))"
    using assms(2) by auto
  then have "map (\<lambda>c. (c_this c, c_limit c, c_depth c, c_parent c))
           (drop (length (calls s))
              (calls (mutateAndExpandReplies_resume C p this key l amount limit depth s))) =
         map (\<lambda>r. (r, limit, js_minus depth 1, Some p))
           (case limit of Infinity \<Rightarrow> items replies | Number n \<Rightarrow> take (nat n) (items replies))"
    using resume_served_calls[OF assms(1), of p this key limit depth] by simp
  moreover have "heap (mutateAndExpandReplies_resume C p this key l amount limit depth s) =
      set_prop this key replies h'"
    using assms(1) by (rule resume_served_heap)
  ultimately show ?thesis by (simp add: nth_set_prop_same nth_set_prop_other)
qed

theorem recursion_targets_witness:
  "map (\<lambda>c. (c_this c, c_limit c, c_depth c, c_parent c))
     (drop 1 (calls (mutateAndExpandReplies_resume double 0 0 ''replies''
        \<lparr>items = [1, 2], cursor = Inr 0\<rparr> (Number (- 1)) (Number 1) (Number 2) two_replies))) =
     [(1, Number 1, Number 1, Some 0)] \<and>
   props (heap (mutateAndExpandReplies_resume double 0 0 ''replies''
        \<lparr>items = [1, 2], cursor = Inr 0\<rparr> (Number (- 1)) (Number 1) (Number 2) two_replies) ! 0)
     ''replies'' = Some \<lparr>items = [1, 2], cursor = Inr 0\<rparr> \<and>
   heap (mutateAndExpandReplies_resume double 0 0 ''replies''
        \<lparr>items = [1, 2], cursor = Inr 0\<rparr> (Number (- 1)) (Number 1) (Number 2) two_replies) ! 2 =
     comment ''t1_c'' [] (Inr 0)"
proof -
  have fm: "fetchMore double (heap two_replies) \<lparr>items = [1, 2], cursor = Inr 0\<rparr> (Number (- 1)) =
      Inr (\<lparr>items = [1, 2], cursor = Inr 0\<rparr>, heap two_replies)"
    by (simp add: double_fields served_def)
  have lim: "Number 1 = Infinity \<or> (\<exists>n. Number 1 = Number n \<and> 0 \<le> n)" by simp
  from recursion_targets[OF fm lim, of 0 0 "''replies''" "Number 2"]
  show ?thesis by (simp add: two_replies_def round_double_exact)
qed

text \<open>
  C7 says that the expansion terminates for every finite depth, the depth being strictly
  decremented on every recursive call. In the arithmetic of doubles that fails from
  \<open>2 ^ 53 + 4\<close> on: there \<^verbatim>\<open>depth - 1\<close> is \<^verbatim>\<open>depth\<close> again, and with limit 1 on a
  service that always has one more comment the queue of suspended calls is never empty.
\<close>

theorem depth_beyond_doubles_never_ends:
  "js_minus (Number 9007199254740996) 1 = Number 9007199254740996 \<and>
   \<not> (\<exists>n. pending (run endless (map (\<lambda>k. 0) [0..<n])
                   (expandReplies lone_comment 0 (Some (Number 1))
                      (Some (Number 9007199254740996)))) = [])"
proof -
  let ?s = "expandReplies lone_comment 0 (Some (Number 1)) (Some (Number 9007199254740996))"
  have "pending (run endless (map (\<lambda>k. 0) [0..<n]) ?s) \<noteq> []" for n
  proof (cases n)
    case 0
    then show ?thesis by (simp add: expandReplies_def)
  next
    case (Suc m)
    have "map (\<lambda>k. 0 :: nat) [0..<Suc m] = 0 # map (\<lambda>k. 0) [0..<m]"
      by (simp add: upt_conv_Cons map_Suc_upt[symmetric] del: upt_Suc)
    then have "run endless (map (\<lambda>k. 0) [0..<n]) ?s =
        run endless (map (\<lambda>k. 0) [0..<m]) (settle endless 0 ?s)"
      by (simp add: Suc)
    moreover have "stuck (run endless (map (\<lambda>k. 0) [0..<m]) (settle endless 0 ?s))"
      using stuck_first by (rule stuck_run)
    ultimately show ?thesis by (auto simp: stuck_def)
  qed
  then show ?thesis using js_minus_stuck by blast
qed

text \<open>
  C7, amended: for an integer depth up to \<open>2 ^ 53\<close> the expansion terminates, whatever
  the limit, the collaborators and the order \<open>sched\<close> in which the responses arrive:
  after finitely many responses no call is suspended, the promise of
  \<^verbatim>\<open>expandReplies\<close> is settled and so is the promise of every recursive call. (From such
  a depth \<^verbatim>\<open>depth - 1\<close> is exact, and every call left suspended by a resumed call has
  less depth to go, lemma \<open>resume_depth\<close>.)
\<close>

theorem expansion_terminates:
  fixes C :: "'c collab"
  assumes "d \<le> 2 ^ 53"
  shows "\<exists>n. pending (run C (map sched [0..<n])
                 (expandReplies h this limit (Some (Number d)))) = [] \<and>
             expandReplies_outcome (run C (map sched [0..<n])
                 (expandReplies h this limit (Some (Number d)))) \<noteq> Pending \<and>
             list_all (\<lambda>c. c_status c \<noteq> Pending)
               (calls (run C (map sched [0..<n])
                 (expandReplies h this limit (Some (Number d)))))"
proof -
  let ?s = "expandReplies h this limit (Some (Number d)) :: 'c state"
  have "\<forall>t. t \<in> set (pending ?s) \<longrightarrow> task_finite t"
    using assms by (simp add: expandReplies_def)
  then obtain n where n: "pending (run C (map sched [0..<n]) ?s) = []"
    using drains[of ?s C sched] by blast
  have "linked (run C (map sched [0..<n]) ?s)"
    using linked_expandReplies by (rule linked_run)
  then have "expandReplies_outcome (run C (map sched [0..<n]) ?s) \<noteq> Pending \<and>
        list_all (\<lambda>c. c_status c \<noteq> Pending) (calls (run C (map sched [0..<n]) ?s))"
    using n by (rule linked_idle)
  with n show ?thesis by blast
qed

theorem expansion_terminates_witness:
  "\<exists>n. pending (run double (map (\<lambda>k. 0) [0..<n])
                 (expandReplies thread 0 (Some (Number 5)) (Some (Number 3)))) = [] \<and>
             expandReplies_outcome (run double (map (\<lambda>k. 0) [0..<n])
                 (expandReplies thread 0 (Some (Number 5)) (Some (Number 3)))) \<noteq> Pending \<and>
             list_all (\<lambda>c. c_status c \<noteq> Pending)
               (calls (run double (map (\<lambda>k. 0) [0..<n])
                 (expandReplies thread 0 (Some (Number 5)) (Some (Number 3)))))"
proof -
  have "(3 :: int) \<le> 2 ^ 53" by simp
  then show ?thesis by (rule expansion_terminates)
qed

text \<open>
  C8: a step with \<open>depth > 0\<close> on a node that holds the Listing \<open>l\<close> asks
  \<^verbatim>\<open>fetchMore\<close> for \<open>limit - length l\<close> as the doubles compute it (the exact
  difference below \<open>2 ^ 53\<close>), negative when the node has more than \<open>limit\<close>
  children (and \<^verbatim>\<open>Infinity\<close> for the limit \<^verbatim>\<open>Infinity\<close>). When the response
  \<open>replies\<close> arrives, the property of the node is replaced by \<open>replies\<close>. If
  \<^verbatim>\<open>fetchMore\<close> does nothing for an amount \<open>\<le> 0\<close>, a node with at least \<open>limit\<close>
  children ends with a Listing of the same items.
\<close>

theorem fetch_shortfall:
  fixes C :: "'c collab"
  assumes "lookup (heap s) this = Some e" and "props e (repliesKey e) = Some l"
    and "\<not> js_le0 depth"
  shows "fetches (mutateAndExpandReplies_call par this (Number n) depth s) =
           fetches s @
             [(this, repliesKey e, Number (round_double (n - int (length (items l)))))] \<and>
         (\<bar>n - int (length (items l))\<bar> < 2 ^ 53 \<longrightarrow>
            fetches (mutateAndExpandReplies_call par this (Number n) depth s) =
              fetches s @ [(this, repliesKey e, Number (n - int (length (items l))))]) \<and>
         fetches (mutateAndExpandReplies_call par this Infinity depth s) =
           fetches s @ [(this, repliesKey e, Infinity)] \<and>
         pending (mutateAndExpandReplies_call par this (Number n) depth s) =
           pending s @ [AwaitFetchMore (length (calls s)) this (repliesKey e) l
                          (Number (round_double (n - int (length (items l))))) (Number n) depth] \<and>
         (\<forall>replies h'. fetchMore C (heap s') l amount = Inr (replies, h') \<and> this < length h' \<longrightarrow>
            props (heap (mutateAndExpandReplies_resume C p this key l amount limit depth s') ! this)
              key = Some replies) \<and>
         (fetchMore_noop C \<and> n \<le> int (length (items l)) \<and> this < length (heap s') \<longrightarrow>
            (\<exists>replies.
               props (heap (mutateAndExpandReplies_resume C p this key l
                              (Number (round_double (n - int (length (items l))))) (Number n)
                              depth s') ! this)
                 key = Some replies \<and>
               items replies = items l))"
proof -
  have a: "fetches (mutateAndExpandReplies_call par this (Number n) depth s) =
           fetches s @
             [(this, repliesKey e, Number (round_double (n - int (length (items l)))))]"
    using assms by (simp add: call_fetches)
  have a': "fetches (mutateAndExpandReplies_call par this (Number n) depth s) =
              fetches s @ [(this, repliesKey e, Number (n - int (length (items l))))]"
    if "\<bar>n - int (length (items l))\<bar> < 2 ^ 53"
    using that by (simp add: a round_double_exact)
  have b: "fetches (mutateAndExpandReplies_call par this Infinity depth s) =
           fetches s @ [(this, repliesKey e, Infinity)]"
    using assms by (simp add: call_fetches)
  have c: "pending (mutateAndExpandReplies_call par this (Number n) depth s) =
           pending s @ [AwaitFetchMore (length (calls s)) this (repliesKey e) l
                          (Number (round_double (n - int (length (items l))))) (Number n) depth]"
    using assms by (simp add: call_pending)
  have d: "props (heap (mutateAndExpandReplies_resume C p this key l amount limit depth s') ! this)
              key = Some replies"
    if "fetchMore C (heap s') l amount = Inr (replies, h')" and "this < length h'"
    for replies h' amount limit
    using that by (simp add: resume_served_heap nth_set_prop_same)
  have e: "\<exists>replies.
               props (heap (mutateAndExpandReplies_resume C p this key l
                              (Number (round_double (n - int (length (items l))))) (Number n)
                              depth s') ! this)
                 key = Some replies \<and>
               items replies = items l"
    if noop: "fetchMore_noop C" and le: "n \<le> int (length (items l))"
      and valid: "this < length (heap s')"
  proof -
    from le have "round_double (n - int (length (items l))) \<le> 0"
      by (intro round_double_nonpos) simp
    with noop obtain l' where
      fm: "fetchMore C (heap s') l (Number (round_double (n - int (length (items l))))) =
             Inr (l', heap s')"
      and same: "items l' = items l"
      unfolding fetchMore_noop_def by blast
    from d[OF fm valid] same show ?thesis by blast
  qed
  from a a' b c d e show ?thesis by blast
qed

theorem fetch_shortfall_witness:
  "fetches (mutateAndExpandReplies_call None 0 (Number 1) (Number 2)
      (two_replies\<lparr>calls := [], fetches := []\<rparr>)) = [(0, ''replies'', Number (- 1))] \<and>
   (\<exists>replies.
      props (heap (mutateAndExpandReplies_resume double 0 0 ''replies''
                     \<lparr>items = [1, 2], cursor = Inr 0\<rparr> (Number (- 1)) (Number 1) (Number 2)
                     two_replies) ! 0) ''replies'' = Some replies \<and>
      items replies = [1, 2])"
proof -
  let ?s = "two_replies\<lparr>calls := [], fetches := []\<rparr>"
  have lk: "lookup (heap ?s) 0 = Some (comment ''t1_a'' [1, 2] (Inr 0))"
    by (simp add: two_replies_def lookup_def)
  have pr: "props (comment ''t1_a'' [1, 2] (Inr 0)) (repliesKey (comment ''t1_a'' [1, 2] (Inr 0))) =
      Some \<lparr>items = [1, 2], cursor = Inr 0\<rparr>"
    by (simp add: comment_fields)
  have dp: "\<not> js_le0 (Number 2)" by simp
  have valid: "0 < length (heap two_replies)" by (simp add: two_replies_def)
  from fetch_shortfall[OF lk pr dp, where C = double and n = 1 and par = None
      and s' = two_replies and p = 0 and key = "''replies''" and amount = Infinity
      and limit = Infinity]
    double_fetchMore_noop valid
  show ?thesis by (simp add: comment_fields two_replies_def round_double_exact)
qed

text \<open>
  C9: a step with \<open>depth > 0\<close> on an entity whose constructor is named
  \<^verbatim>\<open>Submission\<close> reads its Listing from the property \<^verbatim>\<open>comments\<close> and suspends on a
  request for that property; on any other entity it is the property \<^verbatim>\<open>replies\<close>. (A
  missing property suspends nothing: the call is rejected.) The resumed call writes the
  Listing it receives to the property it suspended with.
\<close>

theorem children_field_by_kind:
  fixes C :: "'c collab"
  assumes "lookup (heap s) this = Some e" and "\<not> js_le0 depth"
  shows "(cname e = ''Submission'' \<longrightarrow>
            pending (mutateAndExpandReplies_call par this limit depth s) =
              pending s @
                (case props e ''comments'' of
                   None \<Rightarrow> []
                 | Some l \<Rightarrow>
                     [AwaitFetchMore (length (calls s)) this ''comments'' l
                        (js_minus limit (int (length (items l)))) limit depth])) \<and>
         (cname e \<noteq> ''Submission'' \<longrightarrow>
            pending (mutateAndExpandReplies_call par this limit depth s) =
              pending s @
                (case props e ''replies'' of
                   None \<Rightarrow> []
                 | Some l \<Rightarrow>
                     [AwaitFetchMore (length (calls s)) this ''replies'' l
                        (js_minus limit (int (length (items l)))) limit depth])) \<and>
         (\<forall>replies h'. fetchMore C (heap s') l' amount = Inr (replies, h') \<longrightarrow>
            heap (mutateAndExpandReplies_resume C p this key l' amount limit depth s') =
              h'[this := (h' ! this)\<lparr>props := (props (h' ! this))(key \<mapsto> replies)\<rparr>])"
proof -
  have "heap (mutateAndExpandReplies_resume C p this key l' amount limit depth s') =
              h'[this := (h' ! this)\<lparr>props := (props (h' ! this))(key \<mapsto> replies)\<rparr>]"
    if "fetchMore C (heap s') l' amount = Inr (replies, h')" for replies h'
    using that by (simp add: resume_served_heap set_prop_def)
  moreover have "cname e = ''Submission'' \<Longrightarrow> repliesKey e = ''comments''"
    and "cname e \<noteq> ''Submission'' \<Longrightarrow> repliesKey e = ''replies''"
    by (simp_all add: repliesKey_def)
  ultimately show ?thesis using assms by (auto simp: call_pending split: option.splits)
qed

theorem children_field_by_kind_witness:
  "pending (mutateAndExpandReplies_call None 3 (Number 5) (Number 3)
      \<lparr>heap = heap thread_cloned, calls = [], fetches = [], pending = [],
       outer = AwaitingFetch\<rparr>) =
     [AwaitFetchMore 0 3 ''comments'' \<lparr>items = [4], cursor = Inr 1\<rparr>
        (Number 4) (Number 5) (Number 3)] \<and>
   pending (mutateAndExpandReplies_call (Some 0) 4 (Number 5) (Number 2)
      \<lparr>heap = heap thread_cloned, calls = [], fetches = [], pending = [],
       outer = AwaitingFetch\<rparr>) =
     [AwaitFetchMore 0 4 ''replies'' \<lparr>items = [5], cursor = Inl (ServiceError ''503'')\<rparr>
        (Number 4) (Number 5) (Number 2)]"
proof -
  let ?s = "\<lparr>heap = heap thread_cloned, calls = [], fetches = [], pending = [],
       outer = AwaitingFetch\<rparr> :: (error + nat) state"
  have l3: "lookup (heap ?s) 3 = Some (submission ''t3_a'' [4] (Inr 1))"
    by (simp add: thread_cloned_def lookup_def)
  have l4: "lookup (heap ?s) 4 = Some (comment ''t1_b'' [5] (Inl (ServiceError ''503'')))"
    by (simp add: thread_cloned_def lookup_def)
  have d3: "\<not> js_le0 (Number 3)" and d2: "\<not> js_le0 (Number 2)" by simp_all
  from children_field_by_kind[OF l3 d3, where C = double and par = None and limit = "Number 5"
      and s' = ?s and l' = "\<lparr>items = [], cursor = Inr 0\<rparr>" and amount = Infinity and p = 0
      and key = "''comments''"]
    children_field_by_kind[OF l4 d2, where C = double and par = "Some 0" and limit = "Number 5"
      and s' = ?s and l' = "\<lparr>items = [], cursor = Inr 0\<rparr>" and amount = Infinity and p = 0
      and key = "''comments''"]
  show ?thesis by (simp add: submission_fields comment_fields round_double_exact)
qed

text \<open>
  C10: \<^verbatim>\<open>undistinguish()\<close> is \<^verbatim>\<open>distinguish({status: false, sticky: false})\<close>: one
  request to \<^verbatim>\<open>api/distinguish\<close> with \<^verbatim>\<open>how = 'no'\<close> and \<^verbatim>\<open>sticky = false\<close> for the
  name of the entity, fulfilled with the entity or rejected with the error of the
  request. \<^verbatim>\<open>distinguish\<close> sends \<^verbatim>\<open>'yes'\<close> for \<^verbatim>\<open>true\<close>, \<^verbatim>\<open>'no'\<close> for \<^verbatim>\<open>false\<close>, a
  string as it is, and \<^verbatim>\<open>'yes'\<close> when the status is omitted.
\<close>

theorem undistinguish_is_distinguish_false:
  "undistinguish post nm this w =
     distinguish post nm this (Some (StatusBool False)) (Some False) w \<and>
   undistinguish post nm this w =
     (case post \<lparr>url = ''api/distinguish'',
                 form = [(''api_type'', FormString ''json''), (''how'', FormString ''no''),
                         (''sticky'', FormBool False), (''id'', FormString nm)]\<rparr> w of
        (Inl e, w') \<Rightarrow> (Inl e, w')
      | (Inr res, w') \<Rightarrow> (Inr this, w')) \<and>
   distinguish_request nm (Some (StatusBool True)) sticky =
     \<lparr>url = ''api/distinguish'',
      form = [(''api_type'', FormString ''json''), (''how'', FormString ''yes''),
              (''sticky'', FormBool (case sticky of None \<Rightarrow> False | Some b \<Rightarrow> b)),
              (''id'', FormString nm)]\<rparr> \<and>
   distinguish_request nm (Some (StatusBool False)) sticky =
     \<lparr>url = ''api/distinguish'',
      form = [(''api_type'', FormString ''json''), (''how'', FormString ''no''),
              (''sticky'', FormBool (case sticky of None \<Rightarrow> False | Some b \<Rightarrow> b)),
              (''id'', FormString nm)]\<rparr> \<and>
   distinguish_request nm (Some (StatusString st)) sticky =
     \<lparr>url = ''api/distinguish'',
      form = [(''api_type'', FormString ''json''), (''how'', FormString st),
              (''sticky'', FormBool (case sticky of None \<Rightarrow> False | Some b \<Rightarrow> b)),
              (''id'', FormString nm)]\<rparr> \<and>
   distinguish_request nm None sticky = distinguish_request nm (Some (StatusBool True)) sticky"
  by (simp add: undistinguish_def distinguish_def distinguish_request_def api_type_def)

theorem undistinguish_is_distinguish_false_witness:
  "undistinguish (\<lambda>r (w :: request list). (Inr (), w @ [r])) ''t1_d1xclfo'' (7 :: nat) [] =
     (Inr 7,
      [\<lparr>url = ''api/distinguish'',
        form = [(''api_type'', FormString ''json''), (''how'', FormString ''no''),
                (''sticky'', FormBool False), (''id'', FormString ''t1_d1xclfo'')]\<rparr>])"
proof -
  have "undistinguish (\<lambda>r (w :: request list). (Inr (), w @ [r])) ''t1_d1xclfo'' (7 :: nat) [] =
     (case (\<lambda>r (w :: request list). (Inr (), w @ [r]))
             \<lparr>url = ''api/distinguish'',
              form = [(''api_type'', FormString ''json''), (''how'', FormString ''no''),
                      (''sticky'', FormBool False), (''id'', FormString ''t1_d1xclfo'')]\<rparr> [] of
        (Inl e, w') \<Rightarrow> (Inl e, w')
      | (Inr res, w') \<Rightarrow> (Inr 7, w'))"
    using undistinguish_is_distinguish_false[of "\<lambda>r (w :: request list). (Inr (), w @ [r])"
      "''t1_d1xclfo''" "7 :: nat" "[]" None "''admin''"]
    by (rule conjunct1[OF conjunct2])
  then show ?thesis by simp
qed

end
